theory Spec2Isabelle
  imports Main
begin

section \<open>Strings and paths\<close>

text \<open>
  The downloader of \<^verbatim>\<open>download_3dtiles.py\<close> builds remote URLs and local paths with
  Python's string methods and with \<^verbatim>\<open>os.path\<close> (the POSIX version, \<^verbatim>\<open>posixpath\<close>).
  The functions below compute what these library calls return.
\<close>

definition endswith :: "string \<Rightarrow> string \<Rightarrow> bool" where
  \<comment> \<open>\<^verbatim>\<open>s.endswith(suf)\<close>\<close>
  "endswith s suf = (take (length suf) (rev s) = rev suf)"

definition startswith :: "string \<Rightarrow> string \<Rightarrow> bool" where
  \<comment> \<open>\<^verbatim>\<open>s.startswith(pre)\<close>\<close>
  "startswith s pre = (take (length pre) s = pre)"

definition rstrip_slash :: "string \<Rightarrow> string" where
  \<comment> \<open>\<^verbatim>\<open>s.rstrip('/')\<close>\<close>
  "rstrip_slash s = rev (dropWhile (\<lambda>c. c = CHR ''/'') (rev s))"

fun split_slash :: "string \<Rightarrow> string list" where
  \<comment> \<open>\<^verbatim>\<open>s.split('/')\<close>: the pieces between the slashes, never an empty list\<close>
  "split_slash [] = [[]]"
| "split_slash (c # cs) =
     (if c = CHR ''/'' then [] # split_slash cs
      else (case split_slash cs of
              [] \<Rightarrow> [[c]]
            | piece # pieces \<Rightarrow> (c # piece) # pieces))"

definition os_path_basename :: "string \<Rightarrow> string" where
  \<comment> \<open>\<^verbatim>\<open>i = p.rfind('/') + 1; return p[i:]\<close>\<close>
  "os_path_basename p = rev (takeWhile (\<lambda>c. c \<noteq> CHR ''/'') (rev p))"

definition os_path_dirname :: "string \<Rightarrow> string" where
  \<comment> \<open>\<^verbatim>\<open>head = p[:i]; if head and head != '/' * len(head): head = head.rstrip('/')\<close>\<close>
  "os_path_dirname p =
     (let head = rev (dropWhile (\<lambda>c. c \<noteq> CHR ''/'') (rev p))
      in if head \<noteq> [] \<and> head \<noteq> replicate (length head) CHR ''/'' then rstrip_slash head
         else head)"

definition os_path_join :: "string \<Rightarrow> string \<Rightarrow> string" where
  \<comment> \<open>\<^verbatim>\<open>os.path.join(a, b)\<close>: an absolute \<open>b\<close> or an empty \<open>a\<close> gives \<open>b\<close>;
      no second slash is put after an \<open>a\<close> that ends with one\<close>
  "os_path_join a b =
     (if startswith b ''/'' \<or> a = [] then b
      else if endswith a ''/'' then a @ b
      else a @ ''/'' @ b)"

definition os_path_join3 :: "string \<Rightarrow> string \<Rightarrow> string \<Rightarrow> string" where
  \<comment> \<open>\<^verbatim>\<open>os.path.join(a, b, c)\<close> joins from the left\<close>
  "os_path_join3 a b c = os_path_join (os_path_join a b) c"

section \<open>Path resolution\<close>

text \<open>
  Lines 31 to 39 of \<^verbatim>\<open>download_file\<close>. The parameter \<^verbatim>\<open>parent_folder\<close> defaults to
  \<^verbatim>\<open>None\<close>; both \<^verbatim>\<open>None\<close> and the empty string are false in the test of line 31.
\<close>

definition truthy :: "string option \<Rightarrow> bool" where
  "truthy pf = (case pf of None \<Rightarrow> False | Some f \<Rightarrow> f \<noteq> [])"

definition full_url :: "string \<Rightarrow> string option \<Rightarrow> string \<Rightarrow> string" where
  "full_url base parent_folder url =
     (if truthy parent_folder then base @ ''/Data/'' @ the parent_folder @ ''/'' @ url
      else if startswith url ''Data/'' then base @ ''/'' @ url
      else base @ ''/'' @ url)"

text \<open>
  Lines 97 to 105 of \<^verbatim>\<open>extract_urls_from_node\<close>: the folder of a nested manifest is the
  piece at index 1 of the split reference, and the local path of every reference.
\<close>

definition tile_folder :: "string \<Rightarrow> string \<Rightarrow> string" where
  \<comment> \<open>\<^verbatim>\<open>url.split('/')[1] if '/' in url else parent_folder\<close>\<close>
  "tile_folder url parent_folder =
     (if CHR ''/'' \<in> set url then split_slash url ! 1 else parent_folder)"

definition local_path :: "string \<Rightarrow> string \<Rightarrow> string \<Rightarrow> string \<Rightarrow> string" where
  "local_path output_dir url base_path parent_folder =
     (if endswith url ''.json''
      then os_path_join
             (os_path_join3 output_dir ''Data'' (tile_folder url parent_folder))
             (os_path_basename url)
      else os_path_join base_path url)"

section \<open>Manifest documents\<close>

text \<open>
  \<^verbatim>\<open>json.load\<close> returns Python objects; the walker reads them with \<^verbatim>\<open>in\<close>, with
  subscripts, with \<^verbatim>\<open>dict.get\<close> and with a \<^verbatim>\<open>for\<close> loop, each of which raises on
  an object of the wrong type. A dictionary is the list of its items, with distinct keys.
  The text of a number is kept; the walker never reads it.
\<close>

datatype json =
    JNull
  | JBool bool
  | JNum string
  | JStr string
  | JArr "json list"
  | JObj "(string \<times> json) list"

datatype py_error =
    TypeError | AttributeError | KeyError | OSError | JSONDecodeError | RequestException

fun is_substring :: "string \<Rightarrow> string \<Rightarrow> bool" where
  \<comment> \<open>\<^verbatim>\<open>k in s\<close> for two strings\<close>
  "is_substring k [] = (k = [])"
| "is_substring k (c # cs) = (startswith (c # cs) k \<or> is_substring k cs)"

fun py_contains :: "string \<Rightarrow> json \<Rightarrow> py_error + bool" where
  \<comment> \<open>\<^verbatim>\<open>k in v\<close> for a string \<open>k\<close>\<close>
  "py_contains k (JObj kvs) = Inr (k \<in> set (map fst kvs))"
| "py_contains k (JArr xs) = Inr (JStr k \<in> set xs)"
| "py_contains k (JStr s) = Inr (is_substring k s)"
| "py_contains k _ = Inl TypeError"

fun py_getitem :: "json \<Rightarrow> string \<Rightarrow> py_error + json" where
  \<comment> \<open>\<^verbatim>\<open>v[k]\<close> for a string \<open>k\<close>\<close>
  "py_getitem (JObj kvs) k = (case map_of kvs k of None \<Rightarrow> Inl KeyError | Some x \<Rightarrow> Inr x)"
| "py_getitem _ k = Inl TypeError"

fun py_iter :: "json \<Rightarrow> py_error + json list" where
  \<comment> \<open>the items a \<^verbatim>\<open>for\<close> loop over \<open>v\<close> visits\<close>
  "py_iter (JArr xs) = Inr xs"
| "py_iter (JObj kvs) = Inr (map (\<lambda>kv. JStr (fst kv)) kvs)"
| "py_iter (JStr s) = Inr (map (\<lambda>c. JStr [c]) s)"
| "py_iter _ = Inl TypeError"

fun get_root :: "json \<Rightarrow> py_error + json" where
  \<comment> \<open>\<^verbatim>\<open>data.get('root', {})\<close>\<close>
  "get_root (JObj kvs) = (case map_of kvs ''root'' of None \<Rightarrow> Inr (JObj []) | Some x \<Rightarrow> Inr x)"
| "get_root _ = Inl AttributeError"

definition has_content_url :: "json \<Rightarrow> py_error + bool" where
  \<comment> \<open>line 93: \<^verbatim>\<open>'content' in node and 'url' in node['content']\<close>\<close>
  "has_content_url node =
     (case py_contains ''content'' node of
        Inl e \<Rightarrow> Inl e
      | Inr False \<Rightarrow> Inr False
      | Inr True \<Rightarrow>
          (case py_getitem node ''content'' of
             Inl e \<Rightarrow> Inl e
           | Inr c \<Rightarrow> py_contains ''url'' c))"

definition content_url :: "json \<Rightarrow> py_error + json" where
  \<comment> \<open>line 94: \<^verbatim>\<open>node['content']['url']\<close>\<close>
  "content_url node =
     (case py_getitem node ''content'' of
        Inl e \<Rightarrow> Inl e
      | Inr c \<Rightarrow> py_getitem c ''url'')"

section \<open>The world and the downloader's state\<close>

text \<open>
  What the run cannot decide is a parameter. \<open>http_get u k\<close> is the body of a 2xx answer
  to the GET of \<open>u\<close> that is the \<open>k\<close>-th request of the run (counting from 0), or
  \<open>None\<close> when \<^verbatim>\<open>requests.get\<close> or \<^verbatim>\<open>raise_for_status\<close> raises;
  \<open>write_ok k p\<close> says whether \<^verbatim>\<open>os.makedirs\<close>, \<^verbatim>\<open>open\<close> and \<^verbatim>\<open>write\<close> all
  succeed on path \<open>p\<close> after \<open>k\<close> requests; \<open>json_load\<close> and \<open>json_dump\<close> are the
  library's parser (\<open>None\<close> when it raises) and printer.
\<close>

record env =
  base_url :: string
  http_get :: "string \<Rightarrow> nat \<Rightarrow> string option"
  write_ok :: "nat \<Rightarrow> string \<Rightarrow> bool"
  json_load :: "string \<Rightarrow> json option"
  json_dump :: "json \<Rightarrow> string"

text \<open>
  The state is the object's \<^verbatim>\<open>downloaded_files\<close> and \<^verbatim>\<open>output_dir\<close>, the files on
  disk, and two logs kept for the statements below: every GET issued and every path
  \<^verbatim>\<open>download_file\<close> has written, newest first.
\<close>

record state =
  downloaded_files :: "string set"
  output_dir :: string
  fs :: "string \<rightharpoonup> string"
  requests :: "string list"
  written :: "string list"

definition init_downloader :: "string \<Rightarrow> (string \<rightharpoonup> string) \<Rightarrow> env \<Rightarrow> env \<times> state" where
  \<comment> \<open>\<^verbatim>\<open>__init__\<close>: the base URL loses its trailing slashes, the set starts empty\<close>
  "init_downloader url disk e =
     (e\<lparr>base_url := rstrip_slash url\<rparr>,
      \<lparr>downloaded_files = {}, output_dir = [], fs = disk, requests = [], written = []\<rparr>)"

definition max_retries :: nat where
  "max_retries = 3"

function get_with_retries :: "env \<Rightarrow> string \<Rightarrow> nat \<Rightarrow> state \<Rightarrow> string option \<times> state" where
  \<comment> \<open>lines 45 to 54, from attempt number \<open>retry\<close> on; \<open>None\<close> is the exception raised
      by the last attempt\<close>
  "get_with_retries e u retry s =
     (if max_retries \<le> retry then (None, s)
      else
        let s1 = s\<lparr>requests := u # requests s\<rparr> in
        case http_get e u (length (requests s)) of
          Some body \<Rightarrow> (Some body, s1)
        | None \<Rightarrow>
            if retry = max_retries - 1 then (None, s1)
            else get_with_retries e u (Suc retry) s1)"
  by pat_completeness auto
termination
  by (relation "measure (\<lambda>(e, u, retry, s). max_retries - retry)") auto

declare get_with_retries.simps [simp del]

definition save_file :: "string \<Rightarrow> string \<Rightarrow> state \<Rightarrow> state" where
  \<comment> \<open>lines 60 to 63: the body is on disk and the path is in the set\<close>
  "save_file save_path body s =
     s\<lparr>fs := (fs s)(save_path \<mapsto> body),
       written := save_path # written s,
       downloaded_files := insert save_path (downloaded_files s)\<rparr>"

section \<open>The fetcher and the walker\<close>

text \<open>
  \<^verbatim>\<open>download_file\<close>, \<^verbatim>\<open>process_json_file\<close> and \<^verbatim>\<open>extract_urls_from_node\<close> call
  each other. Each body is written first with the method it calls as a parameter; the
  recursion is then tied through a bound on the depth of nested calls of
  \<^verbatim>\<open>extract_urls_from_node\<close>. At depth 0 the walker does not return, which is the value
  \<open>None\<close>. \<^verbatim>\<open>download_file\<close> catches every exception and returns a boolean;
  \<^verbatim>\<open>process_json_file\<close> catches every exception and returns nothing; the walker lets an
  exception through, so its result is the exception, if any, beside the state reached.
\<close>

type_synonym walk = "json \<Rightarrow> string \<Rightarrow> string \<Rightarrow> state \<Rightarrow> (py_error option \<times> state) option"

definition download_file_body ::
    "(string \<Rightarrow> state \<Rightarrow> state option) \<Rightarrow> env \<Rightarrow> string \<Rightarrow> string \<Rightarrow> string option \<Rightarrow> state
      \<Rightarrow> (bool \<times> state) option" where
  \<comment> \<open>lines 25 to 74; \<open>process\<close> is \<^verbatim>\<open>self.process_json_file\<close>\<close>
  "download_file_body process e url save_path parent_folder s =
     (if save_path \<in> downloaded_files s then Some (True, s)
      else
        case get_with_retries e (full_url (base_url e) parent_folder url) 0 s of
          (None, s1) \<Rightarrow> Some (False, s1)
        | (Some body, s1) \<Rightarrow>
            if \<not> write_ok e (length (requests s1)) save_path then Some (False, s1)
            else if endswith url ''.json''
              then map_option (\<lambda>s3. (True, s3)) (process save_path (save_file save_path body s1))
              else Some (True, save_file save_path body s1))"

definition process_json_file_body :: "walk \<Rightarrow> env \<Rightarrow> string \<Rightarrow> state \<Rightarrow> state option" where
  \<comment> \<open>lines 78 to 89; \<open>extract\<close> is \<^verbatim>\<open>self.extract_urls_from_node\<close>\<close>
  "process_json_file_body extract e json_path s =
     (case fs s json_path of
        None \<Rightarrow> Some s
      | Some text \<Rightarrow>
          (case json_load e text of
             None \<Rightarrow> Some s
           | Some data \<Rightarrow>
               (case get_root data of
                  Inl err \<Rightarrow> Some s
                | Inr root \<Rightarrow>
                    map_option snd
                      (extract root (os_path_dirname json_path)
                         (os_path_basename (os_path_dirname json_path)) s))))"

fun extract_each_body :: "walk \<Rightarrow> json list \<Rightarrow> string \<Rightarrow> string \<Rightarrow> state
      \<Rightarrow> (py_error option \<times> state) option" where
  \<comment> \<open>the loop of lines 112 and 113 over the items left\<close>
  "extract_each_body extract [] base_path parent_folder s = Some (None, s)"
| "extract_each_body extract (child # rest) base_path parent_folder s =
     (case extract child base_path parent_folder s of
        None \<Rightarrow> None
      | Some (Some err, s1) \<Rightarrow> Some (Some err, s1)
      | Some (None, s1) \<Rightarrow> extract_each_body extract rest base_path parent_folder s1)"

definition extract_children_body :: "walk \<Rightarrow> walk" where
  \<comment> \<open>lines 111 to 113\<close>
  "extract_children_body extract node base_path parent_folder s =
     (case py_contains ''children'' node of
        Inl err \<Rightarrow> Some (Some err, s)
      | Inr False \<Rightarrow> Some (None, s)
      | Inr True \<Rightarrow>
          (case py_getitem node ''children'' of
             Inl err \<Rightarrow> Some (Some err, s)
           | Inr cs \<Rightarrow>
               (case py_iter cs of
                  Inl err \<Rightarrow> Some (Some err, s)
                | Inr items \<Rightarrow> extract_each_body extract items base_path parent_folder s)))"

definition extract_urls_body ::
    "(string \<Rightarrow> string \<Rightarrow> string option \<Rightarrow> state \<Rightarrow> (bool \<times> state) option) \<Rightarrow> walk \<Rightarrow> walk" where
  \<comment> \<open>lines 93 to 113; \<open>download\<close> is \<^verbatim>\<open>self.download_file\<close>, whose result is dropped\<close>
  "extract_urls_body download extract node base_path parent_folder s =
     (case has_content_url node of
        Inl err \<Rightarrow> Some (Some err, s)
      | Inr False \<Rightarrow> extract_children_body extract node base_path parent_folder s
      | Inr True \<Rightarrow>
          (case content_url node of
             Inl err \<Rightarrow> Some (Some err, s)
           | Inr u \<Rightarrow>
               (case u of
                  JStr url \<Rightarrow>
                    (case download url (local_path (output_dir s) url base_path parent_folder)
                            (Some parent_folder) s of
                       None \<Rightarrow> None
                     | Some (ok, s1) \<Rightarrow>
                         extract_children_body extract node base_path parent_folder s1)
                | _ \<Rightarrow> Some (Some AttributeError, s))))"

primrec extract_urls_from_node :: "nat \<Rightarrow> env \<Rightarrow> walk" where
  "extract_urls_from_node 0 e = (\<lambda>node base_path parent_folder s. None)"
| "extract_urls_from_node (Suc n) e =
     extract_urls_body
       (download_file_body (process_json_file_body (extract_urls_from_node n e) e) e)
       (extract_urls_from_node n e)"

definition process_json_file :: "nat \<Rightarrow> env \<Rightarrow> string \<Rightarrow> state \<Rightarrow> state option" where
  "process_json_file n e = process_json_file_body (extract_urls_from_node n e) e"

definition download_file ::
    "nat \<Rightarrow> env \<Rightarrow> string \<Rightarrow> string \<Rightarrow> string option \<Rightarrow> state \<Rightarrow> (bool \<times> state) option" where
  "download_file n e = download_file_body (process_json_file n e) e"

definition extract_children :: "nat \<Rightarrow> env \<Rightarrow> walk" where
  "extract_children n e = extract_children_body (extract_urls_from_node n e)"

definition extract_each :: "nat \<Rightarrow> env \<Rightarrow> json list \<Rightarrow> string \<Rightarrow> string \<Rightarrow> state
      \<Rightarrow> (py_error option \<times> state) option" where
  "extract_each n e = extract_each_body (extract_urls_from_node n e)"

definition copy_tileset :: "env \<Rightarrow> string \<Rightarrow> string \<Rightarrow> state \<Rightarrow> py_error + json \<times> state" where
  \<comment> \<open>lines 121 to 128: the root manifest is read with \<^verbatim>\<open>json.load\<close> and what
      \<^verbatim>\<open>json.dump\<close> prints for it is written to \<^verbatim>\<open>tileset.json\<close> in the output directory\<close>
  "copy_tileset e tileset_path base_path s =
     (case fs s tileset_path of
        None \<Rightarrow> Inl OSError
      | Some text \<Rightarrow>
          (case json_load e text of
             None \<Rightarrow> Inl JSONDecodeError
           | Some data \<Rightarrow>
               if \<not> write_ok e (length (requests s)) (os_path_join base_path ''tileset.json'')
               then Inl OSError
               else Inr (data,
                      s\<lparr>fs := (fs s)(os_path_join base_path ''tileset.json'' \<mapsto> json_dump e data)\<rparr>)))"

definition process_tileset :: "nat \<Rightarrow> env \<Rightarrow> string \<Rightarrow> string \<Rightarrow> state \<Rightarrow> state option" where
  \<comment> \<open>lines 117 to 134; every exception ends the method with the state reached\<close>
  "process_tileset n e tileset_path base_path s0 =
     (case copy_tileset e tileset_path base_path (s0\<lparr>output_dir := base_path\<rparr>) of
        Inl err \<Rightarrow> Some (s0\<lparr>output_dir := base_path\<rparr>)
      | Inr (data, s1) \<Rightarrow>
          (case get_root data of
             Inl err \<Rightarrow> Some s1
           | Inr root \<Rightarrow> map_option snd (extract_urls_from_node n e root base_path [] s1)))"

section \<open>Writing a path once\<close>

text \<open>
  The log \<open>written\<close> holds a path once for each time \<^verbatim>\<open>download_file\<close> has written it.
  A state is in order when no path is logged twice and every logged path is in
  \<^verbatim>\<open>downloaded_files\<close>; an operation keeps the order when it leads from a state in order
  to a state in order and removes nothing from \<^verbatim>\<open>downloaded_files\<close>.
\<close>

definition written_once :: "state \<Rightarrow> bool" where
  "written_once s = (distinct (written s) \<and> set (written s) \<subseteq> downloaded_files s)"

definition keeps_written_once :: "state \<Rightarrow> state \<Rightarrow> bool" where
  "keeps_written_once s s' =
     ((written_once s \<longrightarrow> written_once s') \<and> downloaded_files s \<subseteq> downloaded_files s')"

definition walker_keeps :: "nat \<Rightarrow> env \<Rightarrow> bool" where
  "walker_keeps n e =
     (\<forall>node base_path parent_folder s r s'.
        extract_urls_from_node n e node base_path parent_folder s = Some (r, s') \<longrightarrow>
        keeps_written_once s s')"

text \<open>
  One file is written outside \<^verbatim>\<open>download_file\<close>: the copy of the root manifest. An
  operation spares it when it keeps the output directory and, if the fetcher had not
  written to the path of the copy before, it has not afterwards.
\<close>

definition root_copy :: "state \<Rightarrow> string" where
  "root_copy s = os_path_join (output_dir s) ''tileset.json''"

definition spares_root_copy :: "state \<Rightarrow> state \<Rightarrow> bool" where
  "spares_root_copy s s' =
     (output_dir s' = output_dir s \<and>
      (root_copy s \<notin> set (written s) \<longrightarrow> root_copy s \<notin> set (written s')))"

definition walker_spares :: "nat \<Rightarrow> env \<Rightarrow> bool" where
  "walker_spares n e =
     (\<forall>node base_path parent_folder s r s'.
        CHR ''/'' \<notin> set parent_folder \<longrightarrow>
        extract_urls_from_node n e node base_path parent_folder s = Some (r, s') \<longrightarrow>
        spares_root_copy s s')"

section \<open>A server that has stopped answering\<close>

text \<open>
  From the \<open>k\<close>-th request of the run on, every GET fails.
\<close>

definition offline :: "env \<Rightarrow> nat \<Rightarrow> bool" where
  "offline e k = (\<forall>u j. k \<le> j \<longrightarrow> http_get e u j = None)"

section \<open>A sample world\<close>

text \<open>
  A server with base URL \<^verbatim>\<open>http://h/t\<close> that serves the tile \<^verbatim>\<open>a.b3dm\<close> and, as
  \<^verbatim>\<open>Data/Tile_7/sub.json\<close>, a text that is not JSON, and nothing else; a disk on which
  every write succeeds and which holds a root manifest whose root node refers to
  \<^verbatim>\<open>a.b3dm\<close>, and a second one, \<^verbatim>\<open>blank.json\<close>, that is an empty object written with a
  space between the braces. The parser and the printer are given on these texts, where
  they agree with \<^verbatim>\<open>json.load\<close> and \<^verbatim>\<open>json.dump\<close>.
\<close>

definition dq :: char where
  "dq = CHR 0x22"

definition sample_manifest :: json where
  "sample_manifest =
     JObj [(''root'', JObj [(''content'', JObj [(''url'', JStr ''a.b3dm'')])])]"

definition sample_manifest_text :: string where
  "sample_manifest_text =
     ''{'' @ [dq] @ ''root'' @ [dq] @ '': {'' @ [dq] @ ''content'' @ [dq] @ '': {'' @ [dq] @ ''url''
       @ [dq] @ '': '' @ [dq] @ ''a.b3dm'' @ [dq] @ ''}}}''"

definition sample_env :: env where
  "sample_env =
     \<lparr>base_url = ''http://h/t'',
      http_get = (\<lambda>u k. if u = ''http://h/t/a.b3dm'' then Some ''tile''
                        else if u = ''http://h/t/Data/Tile_7/sub.json'' then Some ''{bad''
                        else None),
      write_ok = (\<lambda>k p. True),
      json_load = (\<lambda>t. if t = ''{ }'' then Some (JObj [])
                        else if t = sample_manifest_text then Some sample_manifest
                        else None),
      json_dump = (\<lambda>d. if d = JObj [] then ''{}''
                        else if d = sample_manifest then sample_manifest_text
                        else ''null'')\<rparr>"

definition sample_state :: state where
  "sample_state =
     \<lparr>downloaded_files = {},
      output_dir = [],
      fs = [''tileset.json'' \<mapsto> sample_manifest_text, ''blank.json'' \<mapsto> ''{ }''],
      requests = [],
      written = []\<rparr>"

section \<open>The node tree of a manifest\<close>

text \<open>
  The specification speaks of a tree of nodes, each with an optional content reference
  and a list of children. \<open>Tile\<close> is that tree; \<open>tile_refs\<close> lists its references, a
  node before its children and the children from left to right.
\<close>

datatype tile = Tile (reference: "string option") (children: "tile list")

fun tile_refs :: "tile \<Rightarrow> string list" where
  "tile_refs (Tile ref cs) =
     (case ref of None \<Rightarrow> [] | Some r \<Rightarrow> [r]) @ concat (map tile_refs cs)"

text \<open>
  What the loop of lines 108 to 113 iterates over: nothing when the node has no
  \<^verbatim>\<open>children\<close>, the elements of \<^verbatim>\<open>node['children']\<close> otherwise.
\<close>

definition loop_items :: "json \<Rightarrow> py_error + json list" where
  "loop_items node =
     (case py_contains ''children'' node of
        Inl err \<Rightarrow> Inl err
      | Inr False \<Rightarrow> Inr []
      | Inr True \<Rightarrow>
          (case py_getitem node ''children'' of
             Inl err \<Rightarrow> Inl err
           | Inr cs \<Rightarrow> py_iter cs))"

text \<open>
  A tree represents a parsed node when the source reads it as that tree: the test of
  line 93 succeeds exactly at the nodes with a reference, line 94 reads that reference,
  a string, and the loop iterates over nodes that the children of the tree represent,
  one by one.
\<close>

fun represents :: "tile \<Rightarrow> json \<Rightarrow> bool"
  and represents_all :: "tile list \<Rightarrow> json list \<Rightarrow> bool" where
  "represents (Tile ref cs) node =
     ((case ref of
         None \<Rightarrow> has_content_url node = Inr False
       | Some r \<Rightarrow> has_content_url node = Inr True \<and> content_url node = Inr (JStr r)) \<and>
      (case loop_items node of
         Inl err \<Rightarrow> False
       | Inr items \<Rightarrow> represents_all cs items))"
| "represents_all [] items = (items = [])"
| "represents_all (c # cs) items =
     (case items of
        [] \<Rightarrow> False
      | item # rest \<Rightarrow> represents c item \<and> represents_all cs rest)"

text \<open>
  \<open>walkNode\<close> is the walk as the specification describes it (Tree Walker,
  \<^verbatim>\<open>walkNode(node, basePath, parentFolder)\<close>), on the tree: a node with a reference hands
  it to the fetcher with the destination of Rule A or Rule B and with \<^verbatim>\<open>parentFolder\<close>;
  then every child is walked with the same \<^verbatim>\<open>basePath\<close> and \<^verbatim>\<open>parentFolder\<close>. The fetcher
  is \<open>download_file\<close> of the source, with its depth bound; the result is the state the
  walk leaves. It is compared with \<open>extract_urls_from_node\<close> below.
\<close>

fun walkNode :: "nat \<Rightarrow> env \<Rightarrow> tile \<Rightarrow> string \<Rightarrow> string \<Rightarrow> state \<Rightarrow> state option"
  and walkNodes :: "nat \<Rightarrow> env \<Rightarrow> tile list \<Rightarrow> string \<Rightarrow> string \<Rightarrow> state \<Rightarrow> state option" where
  "walkNode 0 e t base_path parent_folder s = None"
| "walkNode (Suc n) e (Tile ref cs) base_path parent_folder s =
     (case ref of
        None \<Rightarrow> walkNodes n e cs base_path parent_folder s
      | Some r \<Rightarrow>
          (case download_file n e r (local_path (output_dir s) r base_path parent_folder)
                  (Some parent_folder) s of
             None \<Rightarrow> None
           | Some (ok, s1) \<Rightarrow> walkNodes n e cs base_path parent_folder s1))"
| "walkNodes n e [] base_path parent_folder s = Some s"
| "walkNodes n e (c # cs) base_path parent_folder s =
     (case walkNode n e c base_path parent_folder s of
        None \<Rightarrow> None
      | Some s1 \<Rightarrow> walkNodes n e cs base_path parent_folder s1)"

section \<open>A sample world whose server is down\<close>

text \<open>
  A root manifest with three nodes: the root refers to \<^verbatim>\<open>a.b3dm\<close> and has two children,
  the first refers to \<^verbatim>\<open>b/c.b3dm\<close> and the second has no content. The server answers no
  request; every write to the disk succeeds.
\<close>

definition sample_family :: tile where
  "sample_family = Tile (Some ''a.b3dm'') [Tile (Some ''b/c.b3dm'') [], Tile None []]"

definition sample_family_root :: json where
  "sample_family_root =
     JObj [(''content'', JObj [(''url'', JStr ''a.b3dm'')]),
           (''children'', JArr [JObj [(''content'', JObj [(''url'', JStr ''b/c.b3dm'')])], JObj []])]"

definition sample_family_manifest :: json where
  "sample_family_manifest = JObj [(''root'', sample_family_root)]"

definition sample_family_text :: string where
  "sample_family_text =
     ''{'' @ [dq] @ ''root'' @ [dq] @ '': {'' @ [dq] @ ''content'' @ [dq] @ '': {'' @ [dq] @ ''url''
       @ [dq] @ '': '' @ [dq] @ ''a.b3dm'' @ [dq] @ ''}, '' @ [dq] @ ''children'' @ [dq] @ '': [{''
       @ [dq] @ ''content'' @ [dq] @ '': {'' @ [dq] @ ''url'' @ [dq] @ '': '' @ [dq] @ ''b/c.b3dm''
       @ [dq] @ ''}}, {}]}}''"

definition dead_env :: env where
  "dead_env =
     \<lparr>base_url = ''http://h/t'',
      http_get = (\<lambda>u k. None),
      write_ok = (\<lambda>k p. True),
      json_load = (\<lambda>t. if t = sample_family_text then Some sample_family_manifest else None),
      json_dump = (\<lambda>d. if d = sample_family_manifest then sample_family_text else ''null'')\<rparr>"

definition dead_state :: state where
  "dead_state =
     \<lparr>downloaded_files = {},
      output_dir = [],
      fs = [''tileset.json'' \<mapsto> sample_family_text],
      requests = [],
      written = []\<rparr>"

section \<open>The methods as the source writes them\<close>

lemma download_file_eq:
  "download_file n e url save_path parent_folder s =
     (if save_path \<in> downloaded_files s then Some (True, s)
      else
        case get_with_retries e (full_url (base_url e) parent_folder url) 0 s of
          (None, s1) \<Rightarrow> Some (False, s1)
        | (Some body, s1) \<Rightarrow>
            if \<not> write_ok e (length (requests s1)) save_path then Some (False, s1)
            else if endswith url ''.json''
              then map_option (\<lambda>s3. (True, s3))
                     (process_json_file n e save_path (save_file save_path body s1))
              else Some (True, save_file save_path body s1))"
  by (simp add: download_file_def download_file_body_def)

lemma process_json_file_eq:
  "process_json_file n e json_path s =
     (case fs s json_path of
        None \<Rightarrow> Some s
      | Some text \<Rightarrow>
          (case json_load e text of
             None \<Rightarrow> Some s
           | Some data \<Rightarrow>
               (case get_root data of
                  Inl err \<Rightarrow> Some s
                | Inr root \<Rightarrow>
                    map_option snd
                      (extract_urls_from_node n e root (os_path_dirname json_path)
                         (os_path_basename (os_path_dirname json_path)) s))))"
  by (simp add: process_json_file_def process_json_file_body_def)

lemma extract_urls_from_node_eq:
  "extract_urls_from_node (Suc n) e node base_path parent_folder s =
     (case has_content_url node of
        Inl err \<Rightarrow> Some (Some err, s)
      | Inr False \<Rightarrow> extract_children n e node base_path parent_folder s
      | Inr True \<Rightarrow>
          (case content_url node of
             Inl err \<Rightarrow> Some (Some err, s)
           | Inr u \<Rightarrow>
               (case u of
                  JStr url \<Rightarrow>
                    (case download_file n e url
                            (local_path (output_dir s) url base_path parent_folder)
                            (Some parent_folder) s of
                       None \<Rightarrow> None
                     | Some (ok, s1) \<Rightarrow> extract_children n e node base_path parent_folder s1)
                | _ \<Rightarrow> Some (Some AttributeError, s))))"
  unfolding extract_urls_from_node.simps extract_urls_body_def download_file_def
    process_json_file_def extract_children_def
  by (rule refl)

lemma extract_urls_from_node_0:
  "extract_urls_from_node 0 e node base_path parent_folder s = None"
  by simp

declare extract_urls_from_node.simps [simp del]

lemma extract_children_eq:
  "extract_children n e node base_path parent_folder s =
     (case py_contains ''children'' node of
        Inl err \<Rightarrow> Some (Some err, s)
      | Inr False \<Rightarrow> Some (None, s)
      | Inr True \<Rightarrow>
          (case py_getitem node ''children'' of
             Inl err \<Rightarrow> Some (Some err, s)
           | Inr cs \<Rightarrow>
               (case py_iter cs of
                  Inl err \<Rightarrow> Some (Some err, s)
                | Inr items \<Rightarrow> extract_each n e items base_path parent_folder s)))"
  unfolding extract_children_def extract_children_body_def extract_each_def
  by (rule refl)

lemma extract_each_Nil:
  "extract_each n e [] base_path parent_folder s = Some (None, s)"
  by (simp add: extract_each_def)

lemma extract_each_Cons:
  "extract_each n e (child # rest) base_path parent_folder s =
     (case extract_urls_from_node n e child base_path parent_folder s of
        None \<Rightarrow> None
      | Some (Some err, s1) \<Rightarrow> Some (Some err, s1)
      | Some (None, s1) \<Rightarrow> extract_each n e rest base_path parent_folder s1)"
  unfolding extract_each_def extract_each_body.simps
  by (rule refl)

section \<open>Facts about the fetcher\<close>

lemma get_with_retries_first:
  "http_get e u (length (requests s)) = Some body \<Longrightarrow>
   get_with_retries e u 0 s = (Some body, s\<lparr>requests := u # requests s\<rparr>)"
  by (subst get_with_retries.simps) (simp add: max_retries_def)

lemma get_with_retries_fail:
  assumes "http_get e u (length (requests s)) = None"
    and "http_get e u (Suc (length (requests s))) = None"
    and "http_get e u (Suc (Suc (length (requests s)))) = None"
  shows "get_with_retries e u 0 s = (None, s\<lparr>requests := u # u # u # requests s\<rparr>)"
proof -
  let ?s1 = "s\<lparr>requests := u # requests s\<rparr>"
  let ?s2 = "s\<lparr>requests := u # u # requests s\<rparr>"
  have 3: "get_with_retries e u (Suc (Suc 0)) ?s2 = (None, s\<lparr>requests := u # u # u # requests s\<rparr>)"
    using assms(3) by (subst get_with_retries.simps) (simp add: max_retries_def)
  have 2: "get_with_retries e u (Suc 0) ?s1 = get_with_retries e u (Suc (Suc 0)) ?s2"
    using assms(2) by (subst get_with_retries.simps) (simp add: max_retries_def)
  have 1: "get_with_retries e u 0 s = get_with_retries e u (Suc 0) ?s1"
    using assms(1) by (subst get_with_retries.simps) (simp add: max_retries_def)
  show ?thesis by (simp only: 1 2 3)
qed

lemma get_with_retries_frame:
  "get_with_retries e u retry s = (r, s1) \<Longrightarrow>
   downloaded_files s1 = downloaded_files s \<and> fs s1 = fs s \<and> written s1 = written s \<and>
   output_dir s1 = output_dir s \<and> length (requests s) \<le> length (requests s1)"
proof (induction e u retry s arbitrary: r s1 rule: get_with_retries.induct)
  case (1 e u retry s)
  have p: "(if max_retries \<le> retry then (None, s)
            else
              let s1 = s\<lparr>requests := u # requests s\<rparr> in
              case http_get e u (length (requests s)) of
                Some body \<Rightarrow> (Some body, s1)
              | None \<Rightarrow>
                  if retry = max_retries - 1 then (None, s1)
                  else get_with_retries e u (Suc retry) s1) = (r, s1)"
    using "1.prems" by (simp only: get_with_retries.simps [of e u retry s])
  show ?case
  proof (cases "max_retries \<le> retry")
    case True
    with p show ?thesis by simp
  next
    case False
    note nf = False
    show ?thesis
    proof (cases "http_get e u (length (requests s))")
      case (Some body)
      with nf p show ?thesis by auto
    next
      case None
      show ?thesis
      proof (cases "retry = max_retries - 1")
        case True
        with nf None p show ?thesis by auto
      next
        case False
        with nf None p
        have "get_with_retries e u (Suc retry) (s\<lparr>requests := u # requests s\<rparr>) = (r, s1)"
          by simp
        from "1.IH" [OF nf refl None False this] show ?thesis by simp
      qed
    qed
  qed
qed

lemma download_file_fail:
  assumes "save_path \<notin> downloaded_files s"
    and "http_get e (full_url (base_url e) pfo url) (length (requests s)) = None"
    and "http_get e (full_url (base_url e) pfo url) (Suc (length (requests s))) = None"
    and "http_get e (full_url (base_url e) pfo url) (Suc (Suc (length (requests s)))) = None"
  shows "download_file n e url save_path pfo s =
           Some (False, s\<lparr>requests := full_url (base_url e) pfo url # full_url (base_url e) pfo url
                           # full_url (base_url e) pfo url # requests s\<rparr>)"
  using assms(1) get_with_retries_fail [OF assms(2,3,4)]
  by (simp add: download_file_eq)

lemma process_json_file_malformed:
  assumes "fs s json_path = Some doc" and "json_load e doc = None"
  shows "process_json_file n e json_path s = Some s"
  using assms by (simp add: process_json_file_eq)

lemma download_file_json:
  assumes "save_path \<notin> downloaded_files s"
    and "get_with_retries e (full_url (base_url e) pfo url) 0 s = (Some body, s1)"
    and "write_ok e (length (requests s1)) save_path"
    and "endswith url ''.json''"
  shows "download_file n e url save_path pfo s =
           map_option (\<lambda>s3. (True, s3)) (process_json_file n e save_path (save_file save_path body s1))"
  using assms by (simp add: download_file_eq)

lemma extract_node_step:
  assumes "has_content_url node = Inr True" and "content_url node = Inr (JStr url)"
  shows "extract_urls_from_node (Suc n) e node base_path parent_folder s =
           (case download_file n e url (local_path (output_dir s) url base_path parent_folder)
                   (Some parent_folder) s of
              None \<Rightarrow> None
            | Some (ok, s1) \<Rightarrow> extract_children n e node base_path parent_folder s1)"
  by (subst extract_urls_from_node_eq) (simp add: assms)

lemma sample_manifest_text_neq: "sample_manifest_text \<noteq> ''{ }''" "''{ }'' \<noteq> sample_manifest_text"
  by (simp_all add: sample_manifest_text_def)

lemma copy_tileset_ok:
  assumes "fs s tileset_path = Some doc" and "json_load e doc = Some data"
    and "write_ok e (length (requests s)) (os_path_join base_path ''tileset.json'')"
  shows "copy_tileset e tileset_path base_path s =
           Inr (data, s\<lparr>fs := (fs s)(os_path_join base_path ''tileset.json'' \<mapsto> json_dump e data)\<rparr>)"
  using assms by (simp add: copy_tileset_def)

lemma process_tileset_ok:
  assumes "copy_tileset e tileset_path base_path (s0\<lparr>output_dir := base_path\<rparr>) = Inr (data, s1)"
  shows "process_tileset n e tileset_path base_path s0 =
           (case get_root data of
              Inl err \<Rightarrow> Some s1
            | Inr root \<Rightarrow> map_option snd (extract_urls_from_node n e root base_path [] s1))"
  using assms by (simp add: process_tileset_def)

lemma extract_leaf: "extract_urls_from_node (Suc n) e (JObj []) base_path parent_folder s = Some (None, s)"
  by (subst extract_urls_from_node_eq) (simp add: has_content_url_def extract_children_eq)

section \<open>Facts about the log of written paths\<close>

lemma keeps_refl: "keeps_written_once s s"
  by (simp add: keeps_written_once_def)

lemma keeps_trans:
  "keeps_written_once s s1 \<Longrightarrow> keeps_written_once s1 s2 \<Longrightarrow> keeps_written_once s s2"
  by (auto simp: keeps_written_once_def)

lemma keeps_requests: 
  "downloaded_files s1 = downloaded_files s \<Longrightarrow> written s1 = written s \<Longrightarrow> keeps_written_once s s1"
  by (simp add: keeps_written_once_def written_once_def)

lemma keeps_save_file:
  "save_path \<notin> downloaded_files s \<Longrightarrow> keeps_written_once s (save_file save_path body s)"
  by (auto simp: keeps_written_once_def written_once_def save_file_def)

lemma process_json_file_keeps:
  assumes "walker_keeps n e" and "process_json_file n e json_path s = Some s'"
  shows "keeps_written_once s s'"
  using assms
  by (auto simp: process_json_file_eq walker_keeps_def keeps_refl
           split: option.splits sum.splits)

lemma download_file_keeps:
  assumes "walker_keeps n e" and "download_file n e url save_path pfo s = Some (ok, s')"
  shows "keeps_written_once s s'"
proof (cases "save_path \<in> downloaded_files s")
  case True
  with assms(2) show ?thesis by (simp add: download_file_eq keeps_refl)
next
  case False
  obtain r s1 where g: "get_with_retries e (full_url (base_url e) pfo url) 0 s = (r, s1)"
    by (cases "get_with_retries e (full_url (base_url e) pfo url) 0 s")
  from get_with_retries_frame [OF g]
  have f: "downloaded_files s1 = downloaded_files s" "written s1 = written s" by simp_all
  then have k1: "keeps_written_once s s1" by (rule keeps_requests)
  from False f have n1: "save_path \<notin> downloaded_files s1" by simp
  show ?thesis
  proof (cases r)
    case None
    with assms(2) False g k1 show ?thesis by (simp add: download_file_eq)
  next
    case (Some body)
    note sb = Some
    show ?thesis
    proof (cases "write_ok e (length (requests s1)) save_path")
      case False
      with assms(2) \<open>save_path \<notin> downloaded_files s\<close> g sb k1 show ?thesis
        by (simp add: download_file_eq)
    next
      case True
      have k2: "keeps_written_once s (save_file save_path body s1)"
        using k1 keeps_save_file [OF n1] by (rule keeps_trans)
      show ?thesis
      proof (cases "endswith url ''.json''")
        case False
        with assms(2) \<open>save_path \<notin> downloaded_files s\<close> g sb True k2 show ?thesis
          by (simp add: download_file_eq)
      next
        case ej: True
        with assms(2) \<open>save_path \<notin> downloaded_files s\<close> g sb True
        have "process_json_file n e save_path (save_file save_path body s1) = Some s'"
          by (auto simp: download_file_eq)
        from process_json_file_keeps [OF assms(1) this] k2 show ?thesis
          by (blast intro: keeps_trans)
      qed
    qed
  qed
qed

lemma extract_each_keeps:
  assumes "walker_keeps n e"
  shows "extract_each n e items base_path parent_folder s = Some (r, s') \<Longrightarrow>
         keeps_written_once s s'"
proof (induction items arbitrary: s)
  case Nil
  then show ?case by (simp add: extract_each_Nil keeps_refl)
next
  case (Cons child rest)
  from Cons.prems obtain r1 s1 where
    c: "extract_urls_from_node n e child base_path parent_folder s = Some (r1, s1)"
    by (cases "extract_urls_from_node n e child base_path parent_folder s")
       (auto simp: extract_each_Cons)
  with assms have k1: "keeps_written_once s s1" by (auto simp: walker_keeps_def)
  show ?case
  proof (cases r1)
    case None
    with Cons.prems c have "extract_each n e rest base_path parent_folder s1 = Some (r, s')"
      by (simp add: extract_each_Cons)
    from k1 Cons.IH [OF this] show ?thesis by (rule keeps_trans)
  next
    case (Some err)
    with Cons.prems c k1 show ?thesis by (simp add: extract_each_Cons)
  qed
qed

lemma extract_children_keeps:
  assumes "walker_keeps n e"
    and "extract_children n e node base_path parent_folder s = Some (r, s')"
  shows "keeps_written_once s s'"
  using assms(2) extract_each_keeps [OF assms(1)]
  by (auto simp: extract_children_eq keeps_refl split: sum.splits bool.splits)

lemma walker_keeps_Suc:
  assumes "walker_keeps n e"
  shows "walker_keeps (Suc n) e"
  unfolding walker_keeps_def
proof (intro allI impI)
  fix node base_path parent_folder s r s'
  assume x: "extract_urls_from_node (Suc n) e node base_path parent_folder s = Some (r, s')"
  show "keeps_written_once s s'"
  proof (cases "has_content_url node")
    case (Inl err)
    with x show ?thesis by (simp add: extract_urls_from_node_eq keeps_refl)
  next
    case (Inr b)
    show ?thesis
    proof (cases b)
      case False
      with Inr x have "extract_children n e node base_path parent_folder s = Some (r, s')"
        by (simp add: extract_urls_from_node_eq)
      then show ?thesis by (rule extract_children_keeps [OF assms])
    next
      case True
      show ?thesis
      proof (cases "content_url node")
        case (Inl err)
        with Inr True x show ?thesis by (simp add: extract_urls_from_node_eq keeps_refl)
      next
        case cu: (Inr u)
        show ?thesis
        proof (cases u)
          case (JStr url)
          from Inr True cu JStr x obtain ok s1 where
            d: "download_file n e url (local_path (output_dir s) url base_path parent_folder)
                  (Some parent_folder) s = Some (ok, s1)"
            and c: "extract_children n e node base_path parent_folder s1 = Some (r, s')"
            by (auto simp: extract_urls_from_node_eq split: option.splits)
          from download_file_keeps [OF assms d] extract_children_keeps [OF assms c]
          show ?thesis by (rule keeps_trans)
        qed (use Inr True cu x in \<open>simp_all add: extract_urls_from_node_eq keeps_refl\<close>)
      qed
    qed
  qed
qed

lemma walker_keeps_all: "walker_keeps n e"
proof (induction n)
  case 0
  show ?case by (simp add: walker_keeps_def extract_urls_from_node_0)
next
  case (Suc n)
  then show ?case by (rule walker_keeps_Suc)
qed

lemma process_tileset_keeps:
  assumes "process_tileset n e tileset_path base_path s = Some s'"
  shows "keeps_written_once s s'"
proof -
  have k0: "keeps_written_once s (s\<lparr>output_dir := base_path\<rparr>)"
    by (simp add: keeps_requests)
  show ?thesis
  proof (cases "copy_tileset e tileset_path base_path (s\<lparr>output_dir := base_path\<rparr>)")
    case (Inl err)
    with assms k0 show ?thesis by (simp add: process_tileset_def)
  next
    case (Inr p)
    obtain data s1 where p: "p = (data, s1)" by (cases p)
    from Inr p have k1: "keeps_written_once (s\<lparr>output_dir := base_path\<rparr>) s1"
      by (auto simp: copy_tileset_def keeps_requests split: option.splits if_splits)
    show ?thesis
    proof (cases "get_root data")
      case (Inl err)
      with assms Inr p have "s' = s1" by (simp add: process_tileset_def)
      with k0 k1 show ?thesis by (blast intro: keeps_trans)
    next
      case root: (Inr root)
      with assms Inr p obtain r where
        "extract_urls_from_node n e root base_path [] s1 = Some (r, s')"
        by (auto simp: process_tileset_def)
      with walker_keeps_all [of n e] have "keeps_written_once s1 s'"
        by (auto simp: walker_keeps_def)
      with k0 k1 show ?thesis by (blast intro: keeps_trans)
    qed
  qed
qed


lemma sample_run:
  "process_tileset (Suc (Suc 0)) sample_env ''tileset.json'' ''out'' sample_state =
     Some (save_file ''out/a.b3dm'' ''tile''
             (sample_state\<lparr>output_dir := ''out'',
                fs := (fs sample_state)(''out/tileset.json'' \<mapsto> sample_manifest_text),
                requests := [''http://h/t/a.b3dm'']\<rparr>))"
proof -
  let ?node = "JObj [(''content'', JObj [(''url'', JStr ''a.b3dm'')])]"
  let ?s1 = "sample_state\<lparr>output_dir := ''out'',
               fs := (fs sample_state)(''out/tileset.json'' \<mapsto> sample_manifest_text)\<rparr>"
  have j: "os_path_join ''out'' ''tileset.json'' = ''out/tileset.json''"
    by (simp add: os_path_join_def startswith_def endswith_def)
  have l: "json_load sample_env sample_manifest_text = Some sample_manifest"
    by (simp add: sample_env_def sample_manifest_text_neq)
  have d: "json_dump sample_env sample_manifest = sample_manifest_text"
    by (simp add: sample_env_def) (simp add: sample_manifest_def)
  have 1: "fs (sample_state\<lparr>output_dir := ''out''\<rparr>) ''tileset.json'' = Some sample_manifest_text"
    by (simp add: sample_state_def)
  have 3: "write_ok sample_env (length (requests (sample_state\<lparr>output_dir := ''out''\<rparr>)))
             (os_path_join ''out'' ''tileset.json'')"
    by (simp add: sample_env_def)
  have c: "copy_tileset sample_env ''tileset.json'' ''out'' (sample_state\<lparr>output_dir := ''out''\<rparr>) =
             Inr (sample_manifest, ?s1)"
    using copy_tileset_ok [OF 1 l 3] by (simp add: j d)
  have gr: "get_root sample_manifest = Inr ?node"
    by (simp add: sample_manifest_def)
  have hc: "has_content_url ?node = Inr True"
    by (simp add: has_content_url_def)
  have cu: "content_url ?node = Inr (JStr ''a.b3dm'')"
    by (simp add: content_url_def)
  have lp: "local_path ''out'' ''a.b3dm'' ''out'' [] = ''out/a.b3dm''"
    by (simp add: local_path_def endswith_def os_path_join_def startswith_def)
  have u: "full_url (base_url sample_env) (Some []) ''a.b3dm'' = ''http://h/t/a.b3dm''"
    by (simp add: full_url_def truthy_def sample_env_def)
  have g: "http_get sample_env ''http://h/t/a.b3dm'' (length (requests ?s1)) = Some ''tile''"
    by (simp add: sample_env_def)
  have gw: "get_with_retries sample_env ''http://h/t/a.b3dm'' 0 ?s1 =
              (Some ''tile'', ?s1\<lparr>requests := ''http://h/t/a.b3dm'' # requests ?s1\<rparr>)"
    using g by (rule get_with_retries_first)
  have nd: "''out/a.b3dm'' \<notin> downloaded_files ?s1"
    by (simp add: sample_state_def)
  have w: "write_ok sample_env k p" for k p
    by (simp add: sample_env_def)
  have nj: "\<not> endswith ''a.b3dm'' ''.json''"
    by (simp add: endswith_def)
  have dl: "download_file (Suc 0) sample_env ''a.b3dm'' ''out/a.b3dm'' (Some []) ?s1 =
              Some (True, save_file ''out/a.b3dm'' ''tile''
                            (?s1\<lparr>requests := ''http://h/t/a.b3dm'' # requests ?s1\<rparr>))"
    using nd nj by (simp add: download_file_eq u gw w)
  have ch: "extract_children (Suc 0) sample_env ?node ''out'' [] st = Some (None, st)" for st
    by (simp add: extract_children_eq)
  have x: "extract_urls_from_node (Suc (Suc 0)) sample_env ?node ''out'' [] ?s1 =
             Some (None, save_file ''out/a.b3dm'' ''tile''
                            (?s1\<lparr>requests := ''http://h/t/a.b3dm'' # requests ?s1\<rparr>))"
    using extract_node_step [OF hc cu, of "Suc 0" sample_env "''out''" "[]" ?s1] dl
    by (simp add: lp ch)
  show ?thesis
    using process_tileset_ok [OF c, of "Suc (Suc 0)"] gr x
    by (simp add: sample_state_def)
qed

section \<open>The walk returns when every fetch fails\<close>

lemma offline_mono: "offline e k \<Longrightarrow> k \<le> j \<Longrightarrow> offline e j"
  by (simp add: offline_def)

lemma download_file_offline:
  assumes "offline e (length (requests s))"
  shows "\<exists>ok s'. download_file n e url save_path pfo s = Some (ok, s') \<and>
                 length (requests s) \<le> length (requests s')"
proof (cases "save_path \<in> downloaded_files s")
  case True
  then have "download_file n e url save_path pfo s = Some (True, s)"
    by (simp add: download_file_eq)
  then show ?thesis by blast
next
  case False
  let ?u = "full_url (base_url e) pfo url"
  have "http_get e ?u (length (requests s)) = None"
    and "http_get e ?u (Suc (length (requests s))) = None"
    and "http_get e ?u (Suc (Suc (length (requests s)))) = None"
    using assms by (simp_all add: offline_def)
  from download_file_fail [OF False this, of n]
  have "download_file n e url save_path pfo s =
          Some (False, s\<lparr>requests := ?u # ?u # ?u # requests s\<rparr>)" .
  moreover have "length (requests s) \<le> length (requests (s\<lparr>requests := ?u # ?u # ?u # requests s\<rparr>))"
    by simp
  ultimately show ?thesis by blast
qed

lemma child_size:
  assumes "py_getitem node k = Inr v" and "py_iter v = Inr items" and "c \<in> set items"
  shows "size c < size node"
proof -
  from assms(1) obtain kvs where n: "node = JObj kvs" and m: "map_of kvs k = Some v"
    by (cases node) (auto split: option.splits)
  from m have "(k, v) \<in> set kvs" by (rule map_of_SomeD)
  then have "size_prod (\<lambda>_. 0) size (k, v) \<le> size_list (size_prod (\<lambda>_. 0) size) kvs"
    by (rule size_list_estimation') simp
  then have v: "size v < size node" by (simp add: n)
  have "size c \<le> size v"
  proof (cases v)
    case (JArr xs)
    with assms(2,3) have "c \<in> set xs" by simp
    then have "size c \<le> size_list size xs" by (rule size_list_estimation') simp
    with JArr show ?thesis by simp
  next
    case (JObj kvs')
    with assms(2,3) show ?thesis by auto
  next
    case (JStr t)
    with assms(2,3) show ?thesis by auto
  qed (use assms(2) in simp_all)
  with v show ?thesis by simp
qed

lemma extract_each_offline:
  assumes ih: "\<And>node s. size node < n \<Longrightarrow> offline e (length (requests s)) \<Longrightarrow>
                 \<exists>r s'. extract_urls_from_node n e node base_path parent_folder s = Some (r, s') \<and>
                        length (requests s) \<le> length (requests s')"
  shows "\<forall>c \<in> set items. size c < n \<Longrightarrow> offline e (length (requests s)) \<Longrightarrow>
         \<exists>r s'. extract_each n e items base_path parent_folder s = Some (r, s') \<and>
                length (requests s) \<le> length (requests s')"
proof (induction items arbitrary: s)
  case Nil
  then show ?case by (simp add: extract_each_Nil)
next
  case (Cons child rest)
  from Cons.prems have "size child < n" by simp
  from ih [OF this Cons.prems(2)] obtain r1 s1 where
    c: "extract_urls_from_node n e child base_path parent_folder s = Some (r1, s1)"
    and l1: "length (requests s) \<le> length (requests s1)" by blast
  show ?case
  proof (cases r1)
    case (Some err)
    with c l1 show ?thesis by (simp add: extract_each_Cons)
  next
    case None
    from Cons.prems(2) l1 have "offline e (length (requests s1))" by (rule offline_mono)
    with Cons.IH [of s1] Cons.prems(1) obtain r s' where
      "extract_each n e rest base_path parent_folder s1 = Some (r, s')"
      and "length (requests s1) \<le> length (requests s')" by auto
    with c None l1 show ?thesis by (simp add: extract_each_Cons)
  qed
qed

lemma extract_offline:
  "size node < n \<Longrightarrow> offline e (length (requests s)) \<Longrightarrow>
   \<exists>r s'. extract_urls_from_node n e node base_path parent_folder s = Some (r, s') \<and>
          length (requests s) \<le> length (requests s')"
proof (induction n arbitrary: node s)
  case 0
  then show ?case by simp
next
  case (Suc n)
  have children: "\<exists>r s'. extract_children n e node base_path parent_folder s1 = Some (r, s') \<and>
                         length (requests s1) \<le> length (requests s')"
    if o1: "offline e (length (requests s1))" for s1
  proof (cases "py_contains ''children'' node")
    case (Inl err)
    then show ?thesis by (simp add: extract_children_eq)
  next
    case (Inr b)
    show ?thesis
    proof (cases b)
      case False
      with Inr show ?thesis by (simp add: extract_children_eq)
    next
      case True
      show ?thesis
      proof (cases "py_getitem node ''children''")
        case (Inl err)
        with Inr True show ?thesis by (simp add: extract_children_eq)
      next
        case gi: (Inr cs)
        show ?thesis
        proof (cases "py_iter cs")
          case (Inl err)
          with Inr True gi show ?thesis by (simp add: extract_children_eq)
        next
          case it: (Inr items)
          have "\<forall>c \<in> set items. size c < n"
            using child_size [OF gi it] Suc.prems(1) by fastforce
          from extract_each_offline [OF Suc.IH this o1]
          show ?thesis using Inr True gi it by (simp add: extract_children_eq)
        qed
      qed
    qed
  qed
  show ?case
  proof (cases "has_content_url node")
    case (Inl err)
    then show ?thesis by (simp add: extract_urls_from_node_eq)
  next
    case (Inr b)
    show ?thesis
    proof (cases b)
      case False
      with Inr children [OF Suc.prems(2)] show ?thesis
        by (simp add: extract_urls_from_node_eq)
    next
      case True
      show ?thesis
      proof (cases "content_url node")
        case (Inl err)
        with Inr True show ?thesis by (simp add: extract_urls_from_node_eq)
      next
        case cu: (Inr u)
        show ?thesis
        proof (cases u)
          case (JStr url)
          from download_file_offline [OF Suc.prems(2)] obtain ok s1 where
            d: "download_file n e url (local_path (output_dir s) url base_path parent_folder)
                  (Some parent_folder) s = Some (ok, s1)"
            and l1: "length (requests s) \<le> length (requests s1)" by blast
          from Suc.prems(2) l1 have "offline e (length (requests s1))" by (rule offline_mono)
          from children [OF this] obtain r s' where
            "extract_children n e node base_path parent_folder s1 = Some (r, s')"
            and "length (requests s1) \<le> length (requests s')" by blast
          with d l1 Inr True cu JStr show ?thesis
            by (simp add: extract_urls_from_node_eq)
        qed (use Inr True cu in \<open>simp_all add: extract_urls_from_node_eq\<close>)
      qed
    qed
  qed
qed

lemma process_json_file_offline:
  assumes "offline e (length (requests s))"
  shows "\<exists>m. \<forall>n\<ge>m. \<exists>s'. process_json_file n e json_path s = Some s'"
proof (cases "fs s json_path")
  case None
  then show ?thesis by (simp add: process_json_file_eq)
next
  case (Some doc)
  show ?thesis
  proof (cases "json_load e doc")
    case None
    with Some show ?thesis by (simp add: process_json_file_eq)
  next
    case sd: (Some data)
    show ?thesis
    proof (cases "get_root data")
      case (Inl err)
      with Some sd show ?thesis by (simp add: process_json_file_eq)
    next
      case (Inr root)
      have "\<exists>s'. process_json_file n e json_path s = Some s'" if "Suc (size root) \<le> n" for n
      proof -
        from that have "size root < n" by simp
        from extract_offline [OF this assms, where base_path = "os_path_dirname json_path"
            and parent_folder = "os_path_basename (os_path_dirname json_path)"]
        obtain r s' where
          "extract_urls_from_node n e root (os_path_dirname json_path)
             (os_path_basename (os_path_dirname json_path)) s = Some (r, s')" by blast
        with Some sd Inr show ?thesis by (simp add: process_json_file_eq)
      qed
      then show ?thesis by blast
    qed
  qed
qed

section \<open>The walk of the source and the walk over the tree\<close>

text \<open>
  On a node that a tree represents, \<open>extract_urls_from_node\<close> does what \<open>walkNode\<close> does
  on the tree, at every depth bound, in every world and from every state; it returns
  no error there.
\<close>

lemma extract_children_loop:
  "extract_children n e node base_path parent_folder s =
     (case loop_items node of
        Inl err \<Rightarrow> Some (Some err, s)
      | Inr items \<Rightarrow> extract_each n e items base_path parent_folder s)"
  by (simp add: extract_children_eq loop_items_def extract_each_Nil
           split: sum.splits bool.splits)

lemma walk_refines:
  "represents t node \<Longrightarrow>
     extract_urls_from_node n e node base_path parent_folder s =
       map_option (Pair None) (walkNode n e t base_path parent_folder s)"
  "represents_all ts items \<Longrightarrow>
     extract_each n e items base_path parent_folder s =
       map_option (Pair None) (walkNodes n e ts base_path parent_folder s)"
proof (induction n e t base_path parent_folder s and n e ts base_path parent_folder s
       arbitrary: node and items rule: walkNode_walkNodes.induct)
  case (1 e t base_path parent_folder s)
  show ?case by (simp add: extract_urls_from_node_0)
next
  case (2 n e ref cs base_path parent_folder s)
  from "2.prems" obtain items where li: "loop_items node = Inr items"
    and ra: "represents_all cs items"
    by (auto split: sum.splits)
  have ch: "extract_children n e node base_path parent_folder st =
              extract_each n e items base_path parent_folder st" for st
    by (simp add: extract_children_loop li)
  show ?case
  proof (cases ref)
    case None
    with "2.prems" have hc: "has_content_url node = Inr False" by simp
    show ?thesis
      using None "2.IH"(1) [OF None ra]
      by (simp add: extract_urls_from_node_eq hc ch)
  next
    case (Some r)
    with "2.prems" have hc: "has_content_url node = Inr True"
      and cu: "content_url node = Inr (JStr r)" by simp_all
    show ?thesis
    proof (cases "download_file n e r (local_path (output_dir s) r base_path parent_folder)
                    (Some parent_folder) s")
      case None
      with Some show ?thesis by (simp add: extract_node_step [OF hc cu])
    next
      case sd: (Some p)
      obtain ok s1 where p: "p = (ok, s1)" by (cases p)
      show ?thesis
        using Some sd p "2.IH"(2) [OF Some sd p [symmetric] ra]
        by (simp add: extract_node_step [OF hc cu] ch)
    qed
  qed
next
  case (3 n e base_path parent_folder s)
  then show ?case by (simp add: extract_each_Nil)
next
  case (4 n e c cs base_path parent_folder s)
  from "4.prems" obtain item rest where it: "items = item # rest"
    and rc: "represents c item" and rr: "represents_all cs rest"
    by (auto split: list.splits)
  show ?case
  proof (cases "walkNode n e c base_path parent_folder s")
    case None
    with "4.IH"(1) [OF rc] show ?thesis by (simp add: it extract_each_Cons)
  next
    case (Some s1)
    with "4.IH"(1) [OF rc] "4.IH"(2) [OF Some rr] show ?thesis
      by (simp add: it extract_each_Cons)
  qed
qed

text \<open>
  When the server has stopped answering and nothing has been downloaded yet, the walk
  of a tree returns at every depth bound that is at least the size of the tree, and
  it has asked three times for every reference of the tree, in the order of the walk
  (the log has the newest request first).
\<close>

lemma tile_child_size: "c \<in> set cs \<Longrightarrow> size c < size (Tile ref cs)"
proof -
  assume "c \<in> set cs"
  then have "size c \<le> size_list size cs" by (rule size_list_estimation') simp
  then show ?thesis by simp
qed

lemma walk_offline_log:
  "offline e (length (requests s)) \<Longrightarrow> downloaded_files s = {} \<Longrightarrow> size t \<le> n \<Longrightarrow>
     walkNode n e t base_path parent_folder s =
       Some (s\<lparr>requests :=
               concat (map (\<lambda>r. replicate 3 (full_url (base_url e) (Some parent_folder) r))
                         (rev (tile_refs t))) @ requests s\<rparr>)"
  "offline e (length (requests s)) \<Longrightarrow> downloaded_files s = {} \<Longrightarrow>
   \<forall>c \<in> set ts. size c \<le> n \<Longrightarrow>
     walkNodes n e ts base_path parent_folder s =
       Some (s\<lparr>requests :=
               concat (map (\<lambda>r. replicate 3 (full_url (base_url e) (Some parent_folder) r))
                         (rev (concat (map tile_refs ts)))) @ requests s\<rparr>)"
proof (induction n e t base_path parent_folder s and n e ts base_path parent_folder s
       rule: walkNode_walkNodes.induct)
  case (1 e t base_path parent_folder s)
  then show ?case by (cases t) simp
next
  case (2 n e ref cs base_path parent_folder s)
  have sz: "\<forall>c \<in> set cs. size c \<le> n"
    using "2.prems"(3) tile_child_size [of _ cs ref] by fastforce
  show ?case
  proof (cases ref)
    case None
    with "2.IH"(1) [OF None "2.prems"(1,2) sz] show ?thesis by simp
  next
    case (Some r)
    let ?u = "full_url (base_url e) (Some parent_folder) r"
    let ?s1 = "s\<lparr>requests := ?u # ?u # ?u # requests s\<rparr>"
    have nd: "local_path (output_dir s) r base_path parent_folder \<notin> downloaded_files s"
      using "2.prems"(2) by simp
    have g: "http_get e ?u (length (requests s)) = None"
      "http_get e ?u (Suc (length (requests s))) = None"
      "http_get e ?u (Suc (Suc (length (requests s)))) = None"
      using "2.prems"(1) by (simp_all add: offline_def)
    have d: "download_file n e r (local_path (output_dir s) r base_path parent_folder)
               (Some parent_folder) s = Some (False, ?s1)"
      using nd g by (rule download_file_fail)
    have o1: "offline e (length (requests ?s1))"
      using "2.prems"(1) by (rule offline_mono) simp
    have e1: "downloaded_files ?s1 = {}" using "2.prems"(2) by simp
    from "2.IH"(2) [OF Some d refl o1 e1 sz]
    show ?thesis using Some d by (simp add: numeral_3_eq_3)
  qed
next
  case (3 n e base_path parent_folder s)
  then show ?case by simp
next
  case (4 n e c cs base_path parent_folder s)
  let ?f = "\<lambda>r. replicate 3 (full_url (base_url e) (Some parent_folder) r)"
  let ?s1 = "s\<lparr>requests := concat (map ?f (rev (tile_refs c))) @ requests s\<rparr>"
  from "4.prems"(3) have c: "size c \<le> n" and cs: "\<forall>c \<in> set cs. size c \<le> n" by simp_all
  from "4.IH"(1) [OF "4.prems"(1,2) c]
  have w: "walkNode n e c base_path parent_folder s = Some ?s1" .
  have o1: "offline e (length (requests ?s1))"
    using "4.prems"(1) by (rule offline_mono) simp
  have e1: "downloaded_files ?s1 = {}" using "4.prems"(2) by simp
  from "4.IH"(2) [OF w o1 e1 cs] w show ?case by simp
qed

text \<open>
  A reference that does not end with \<^verbatim>\<open>.json\<close> is fetched without any nested walk:
  \<open>download_file\<close> returns at every depth bound and the requests it has made all go to
  the URL of that reference. The walk of a tree whose references are all of this kind
  returns at every depth bound that is at least the size of the tree, in every world,
  and every request it has made goes to the URL of a reference of the tree.
\<close>

lemma get_with_retries_log:
  "get_with_retries e u retry s = (r, s1) \<Longrightarrow>
   \<exists>k. requests s1 = replicate k u @ requests s"
proof (induction e u retry s arbitrary: r s1 rule: get_with_retries.induct)
  case (1 e u retry s)
  have p: "(if max_retries \<le> retry then (None, s)
            else
              let s1 = s\<lparr>requests := u # requests s\<rparr> in
              case http_get e u (length (requests s)) of
                Some body \<Rightarrow> (Some body, s1)
              | None \<Rightarrow>
                  if retry = max_retries - 1 then (None, s1)
                  else get_with_retries e u (Suc retry) s1) = (r, s1)"
    using "1.prems" by (simp only: get_with_retries.simps [of e u retry s])
  have one: "requests (s\<lparr>requests := u # requests s\<rparr>) = replicate (Suc 0) u @ requests s"
    by simp
  show ?case
  proof (cases "max_retries \<le> retry")
    case True
    with p have "requests s1 = replicate 0 u @ requests s" by auto
    then show ?thesis by blast
  next
    case False
    note nf = False
    show ?thesis
    proof (cases "http_get e u (length (requests s))")
      case (Some body)
      with nf p have "s1 = s\<lparr>requests := u # requests s\<rparr>" by auto
      with one show ?thesis by blast
    next
      case None
      show ?thesis
      proof (cases "retry = max_retries - 1")
        case True
        with nf None p have "s1 = s\<lparr>requests := u # requests s\<rparr>" by auto
        with one show ?thesis by blast
      next
        case False
        with nf None p
        have "get_with_retries e u (Suc retry) (s\<lparr>requests := u # requests s\<rparr>) = (r, s1)"
          by simp
        from "1.IH" [OF nf refl None False this]
        obtain k where "requests s1 = replicate k u @ u # requests s" by auto
        then have "requests s1 = replicate (Suc k) u @ requests s"
          by (simp add: replicate_app_Cons_same)
        then show ?thesis by blast
      qed
    qed
  qed
qed

lemma download_file_payload_log:
  assumes "\<not> endswith url ''.json''"
  shows "\<exists>ok s1 k. download_file n e url save_path pfo s = Some (ok, s1) \<and>
           requests s1 = replicate k (full_url (base_url e) pfo url) @ requests s"
proof (cases "save_path \<in> downloaded_files s")
  case True
  then have "download_file n e url save_path pfo s = Some (True, s)"
    by (simp add: download_file_eq)
  moreover have "requests s = replicate 0 (full_url (base_url e) pfo url) @ requests s" by simp
  ultimately show ?thesis by blast
next
  case False
  obtain r s1 where g: "get_with_retries e (full_url (base_url e) pfo url) 0 s = (r, s1)"
    by (cases "get_with_retries e (full_url (base_url e) pfo url) 0 s")
  from get_with_retries_log [OF g]
  obtain k where k: "requests s1 = replicate k (full_url (base_url e) pfo url) @ requests s" ..
  have k2: "requests (save_file save_path body s1) =
              replicate k (full_url (base_url e) pfo url) @ requests s" for body
    using k by (simp add: save_file_def)
  show ?thesis
  proof (cases r)
    case None
    with False g have "download_file n e url save_path pfo s = Some (False, s1)"
      by (simp add: download_file_eq)
    with k show ?thesis by blast
  next
    case (Some body)
    show ?thesis
    proof (cases "write_ok e (length (requests s1)) save_path")
      case True
      with Some False g assms
      have "download_file n e url save_path pfo s = Some (True, save_file save_path body s1)"
        by (simp add: download_file_eq)
      with k2 show ?thesis by blast
    next
      case nw: False
      with Some False g have "download_file n e url save_path pfo s = Some (False, s1)"
        by (simp add: download_file_eq)
      with k show ?thesis by blast
    qed
  qed
qed

lemma walk_payload_log:
  "list_all (\<lambda>r. \<not> endswith r ''.json'') (tile_refs t) \<Longrightarrow> size t \<le> n \<Longrightarrow>
     \<exists>s1 new. walkNode n e t base_path parent_folder s = Some s1 \<and>
       requests s1 = new @ requests s \<and>
       set new \<subseteq> full_url (base_url e) (Some parent_folder) ` set (tile_refs t)"
  "list_all (\<lambda>r. \<not> endswith r ''.json'') (concat (map tile_refs ts)) \<Longrightarrow>
   \<forall>c \<in> set ts. size c \<le> n \<Longrightarrow>
     \<exists>s1 new. walkNodes n e ts base_path parent_folder s = Some s1 \<and>
       requests s1 = new @ requests s \<and>
       set new \<subseteq> full_url (base_url e) (Some parent_folder) ` set (concat (map tile_refs ts))"
proof (induction n e t base_path parent_folder s and n e ts base_path parent_folder s
       rule: walkNode_walkNodes.induct)
  case (1 e t base_path parent_folder s)
  then show ?case by (cases t) simp
next
  case (2 n e ref cs base_path parent_folder s)
  have sz: "\<forall>c \<in> set cs. size c \<le> n"
    using "2.prems"(2) tile_child_size [of _ cs ref] by fastforce
  show ?case
  proof (cases ref)
    case None
    with "2.prems"(1) have la: "list_all (\<lambda>r. \<not> endswith r ''.json'') (concat (map tile_refs cs))"
      by simp
    from "2.IH"(1) [OF None la sz] None show ?thesis by simp
  next
    case (Some r)
    let ?u = "full_url (base_url e) (Some parent_folder) r"
    from Some "2.prems"(1) have nj: "\<not> endswith r ''.json''"
      and la: "list_all (\<lambda>r. \<not> endswith r ''.json'') (concat (map tile_refs cs))"
      by simp_all
    from download_file_payload_log [OF nj]
    obtain ok s1 k where
      d: "download_file n e r (local_path (output_dir s) r base_path parent_folder)
            (Some parent_folder) s = Some (ok, s1)"
      and k: "requests s1 = replicate k ?u @ requests s"
      by blast
    from "2.IH"(2) [OF Some d refl la sz]
    obtain s2 new where w: "walkNodes n e cs base_path parent_folder s1 = Some s2"
      and r2: "requests s2 = new @ requests s1"
      and sub: "set new \<subseteq> full_url (base_url e) (Some parent_folder) ` set (concat (map tile_refs cs))"
      by blast
    have "walkNode (Suc n) e (Tile ref cs) base_path parent_folder s = Some s2"
      using Some d w by simp
    moreover have "requests s2 = (new @ replicate k ?u) @ requests s"
      using r2 k by simp
    moreover have "set (new @ replicate k ?u) \<subseteq>
                     full_url (base_url e) (Some parent_folder) ` set (tile_refs (Tile ref cs))"
      using sub Some by auto
    ultimately show ?thesis by blast
  qed
next
  case (3 n e base_path parent_folder s)
  then show ?case by simp
next
  case (4 n e c cs base_path parent_folder s)
  from "4.prems"(1) have lc: "list_all (\<lambda>r. \<not> endswith r ''.json'') (tile_refs c)"
    and la: "list_all (\<lambda>r. \<not> endswith r ''.json'') (concat (map tile_refs cs))"
    by simp_all
  from "4.prems"(2) have c: "size c \<le> n" and cs: "\<forall>c \<in> set cs. size c \<le> n" by simp_all
  from "4.IH"(1) [OF lc c]
  obtain s1 new1 where w1: "walkNode n e c base_path parent_folder s = Some s1"
    and r1: "requests s1 = new1 @ requests s"
    and sub1: "set new1 \<subseteq> full_url (base_url e) (Some parent_folder) ` set (tile_refs c)"
    by blast
  from "4.IH"(2) [OF w1 la cs]
  obtain s2 new2 where w2: "walkNodes n e cs base_path parent_folder s1 = Some s2"
    and r2: "requests s2 = new2 @ requests s1"
    and sub2: "set new2 \<subseteq> full_url (base_url e) (Some parent_folder) ` set (concat (map tile_refs cs))"
    by blast
  have "walkNodes n e (c # cs) base_path parent_folder s = Some s2"
    using w1 w2 by simp
  moreover have "requests s2 = (new2 @ new1) @ requests s"
    using r1 r2 by simp
  moreover have "set (new2 @ new1) \<subseteq>
                   full_url (base_url e) (Some parent_folder) ` set (concat (map tile_refs (c # cs)))"
  proof -
    have "set (concat (map tile_refs (c # cs))) =
            set (tile_refs c) \<union> set (concat (map tile_refs cs))" by simp
    then show ?thesis using sub1 sub2 by (simp only: set_append image_Un) blast
  qed
  ultimately show ?case by blast
qed

section \<open>Facts about paths\<close>

lemma split_slash_not_Nil: "split_slash u \<noteq> []"
  by (induction u) (auto split: list.splits)

lemma split_slash_length: "CHR ''/'' \<in> set u \<Longrightarrow> 2 \<le> length (split_slash u)"
proof (induction u)
  case Nil
  then show ?case by simp
next
  case (Cons c cs)
  obtain w ws where w: "split_slash cs = w # ws"
    using split_slash_not_Nil [of cs] by (cases "split_slash cs") auto
  show ?case
  proof (cases "c = CHR ''/''")
    case True
    with w show ?thesis by simp
  next
    case False
    with Cons have "2 \<le> length (split_slash cs)" by simp
    with False w show ?thesis by simp
  qed
qed

lemma split_slash_no_slash: "p \<in> set (split_slash u) \<Longrightarrow> CHR ''/'' \<notin> set p"
proof (induction u arbitrary: p)
  case Nil
  then show ?case by simp
next
  case (Cons c cs)
  obtain w ws where w: "split_slash cs = w # ws"
    using split_slash_not_Nil [of cs] by (cases "split_slash cs") auto
  show ?case
  proof (cases "c = CHR ''/''")
    case True
    with Cons show ?thesis by auto
  next
    case False
    with Cons.prems w have "p = c # w \<or> p \<in> set ws" by simp
    then show ?thesis
    proof
      assume "p = c # w"
      moreover have "CHR ''/'' \<notin> set w" using Cons.IH [of w] w by simp
      ultimately show ?thesis using False by auto
    next
      assume "p \<in> set ws"
      then show ?thesis using Cons.IH [of p] w by simp
    qed
  qed
qed

lemma tile_folder_no_slash:
  "CHR ''/'' \<notin> set parent_folder \<Longrightarrow> CHR ''/'' \<notin> set (tile_folder url parent_folder)"
  using split_slash_length[of url] split_slash_no_slash[of "split_slash url ! 1" url]
  by (auto simp: tile_folder_def)

lemma basename_no_slash: "CHR ''/'' \<notin> set (os_path_basename p)"
  using set_takeWhileD[of "CHR ''/''" "\<lambda>c. c \<noteq> CHR ''/''" "rev p"] by (auto simp: os_path_basename_def)

lemma startswith_slash: "startswith b ''/'' \<longleftrightarrow> (b \<noteq> [] \<and> hd b = CHR ''/'')"
  by (cases b) (auto simp: startswith_def)

lemma endswith_slash: "endswith a ''/'' \<longleftrightarrow> (a \<noteq> [] \<and> last a = CHR ''/'')"
  by (cases a rule: rev_cases) (auto simp: endswith_def)

lemma no_slash_not_startswith: "CHR ''/'' \<notin> set b \<Longrightarrow> \<not> startswith b ''/''"
  by (cases b) (auto simp: startswith_def)

lemma no_slash_not_endswith: "CHR ''/'' \<notin> set b \<Longrightarrow> \<not> endswith b ''/''"
  by (cases b rule: rev_cases) (auto simp: endswith_def)

lemma rule_A_path:
  assumes "endswith url ''.json''" and "out \<noteq> []" and "\<not> endswith out ''/''"
    and "CHR ''/'' \<notin> set parent_folder"
  shows "local_path out url base_path parent_folder =
           out @ ''/Data/'' @
           (if tile_folder url parent_folder = [] then [] else tile_folder url parent_folder @ ''/'')
           @ os_path_basename url"
proof -
  let ?tf = "tile_folder url parent_folder"
  have tf: "CHR ''/'' \<notin> set ?tf" using assms(4) by (rule tile_folder_no_slash)
  have j1: "os_path_join out ''Data'' = out @ ''/Data''"
    using assms(2,3) by (simp add: os_path_join_def startswith_def)
  have e1: "\<not> endswith (out @ ''/Data'') ''/''" by (simp add: endswith_def)
  have "os_path_join (out @ ''/Data'') ?tf = out @ ''/Data/'' @ ?tf"
    using tf e1 by (simp add: os_path_join_def no_slash_not_startswith)
  then have j2: "os_path_join3 out ''Data'' ?tf = out @ ''/Data/'' @ ?tf"
    by (simp only: os_path_join3_def j1)
  have b: "\<not> startswith (os_path_basename url) ''/''"
    by (rule no_slash_not_startswith) (rule basename_no_slash)
  have lp: "local_path out url base_path parent_folder =
              os_path_join (out @ ''/Data/'' @ ?tf) (os_path_basename url)"
    using assms(1) by (simp only: local_path_def j2 if_True)
  show ?thesis
  proof (cases "?tf = []")
    case True
    have "endswith (out @ ''/Data/'') ''/''" by (simp add: endswith_def)
    then have "os_path_join (out @ ''/Data/'') (os_path_basename url) =
               out @ ''/Data/'' @ os_path_basename url"
      using b by (simp add: os_path_join_def)
    with True show ?thesis by (simp add: lp)
  next
    case False
    then have "last ?tf \<noteq> CHR ''/''" using tf by (metis last_in_set)
    then have "\<not> endswith (out @ ''/Data/'' @ ?tf) ''/''"
      using False by (simp add: endswith_slash)
    then have "os_path_join (out @ ''/Data/'' @ ?tf) (os_path_basename url) =
               out @ ''/Data/'' @ ?tf @ ''/'' @ os_path_basename url"
      using b by (simp add: os_path_join_def)
    with False show ?thesis by (simp add: lp)
  qed
qed

lemma endswith_json_example: "endswith ''a/Tile_7/sub.json'' ''.json''"
  by (simp add: endswith_def)

lemma tile_folder_example: "tile_folder ''a/Tile_7/sub.json'' [] = ''Tile_7''"
  by (simp add: tile_folder_def)

lemma basename_example: "os_path_basename ''a/Tile_7/sub.json'' = ''sub.json''"
  by (simp add: os_path_basename_def)

section \<open>Rule A: the local path of a nested manifest\<close>

text \<open>
  C1, as the specification words it: the tile folder is the first piece of the reference
  split on the slash. The source takes the piece at index 1, the second one
  (\<^verbatim>\<open>url.split('/')[1]\<close>): for \<^verbatim>\<open>a/Tile_7/sub.json\<close> the first piece is \<^verbatim>\<open>a\<close>, the
  folder is \<^verbatim>\<open>Tile_7\<close>, and the local path is not the one under \<^verbatim>\<open>out/Data/a\<close>.
\<close>

theorem rule_A_first_piece_counterexample:
  "hd (split_slash ''a/Tile_7/sub.json'') = ''a'' \<and>
   tile_folder ''a/Tile_7/sub.json'' [] \<noteq> hd (split_slash ''a/Tile_7/sub.json'') \<and>
   local_path ''out'' ''a/Tile_7/sub.json'' ''out'' [] \<noteq> ''out/Data/a/sub.json''"
proof -
  have "local_path ''out'' ''a/Tile_7/sub.json'' ''out'' [] = ''out/Data/Tile_7/sub.json''"
    using rule_A_path [where url = "''a/Tile_7/sub.json''" and out = "''out''"
        and parent_folder = "[]" and base_path = "''out''"]
    by (simp add: endswith_json_example tile_folder_example basename_example)
       (simp add: endswith_def)
  then show ?thesis by (simp add: tile_folder_example)
qed

text \<open>
  C1, amended: for a reference that ends with \<^verbatim>\<open>.json\<close> the tile folder is the piece at
  index 1 of the reference split on the slash (the piece that follows the first slash),
  or the parent folder when the reference has no slash; for an output directory that is
  not empty and does not end with a slash, and a parent folder without a slash, the
  local path is the output directory, \<^verbatim>\<open>/Data/\<close>, the tile folder followed by a slash
  unless it is empty, and the base name of the reference.
\<close>

theorem rule_A_destination:
  assumes "endswith url ''.json''" and "out \<noteq> []" and "\<not> endswith out ''/''"
    and "CHR ''/'' \<notin> set parent_folder"
  shows "tile_folder url parent_folder =
           (if CHR ''/'' \<in> set url then split_slash url ! 1 else parent_folder) \<and>
         (if CHR ''/'' \<in> set url then 2 \<le> length (split_slash url) else True) \<and>
         local_path out url base_path parent_folder =
           out @ ''/Data/'' @
           (if tile_folder url parent_folder = [] then [] else tile_folder url parent_folder @ ''/'')
           @ os_path_basename url"
proof (intro conjI)
  show "tile_folder url parent_folder =
           (if CHR ''/'' \<in> set url then split_slash url ! 1 else parent_folder)"
    by (simp add: tile_folder_def)
  show "if CHR ''/'' \<in> set url then 2 \<le> length (split_slash url) else True"
    by (simp add: split_slash_length)
  show "local_path out url base_path parent_folder =
           out @ ''/Data/'' @
           (if tile_folder url parent_folder = [] then [] else tile_folder url parent_folder @ ''/'')
           @ os_path_basename url"
    using assms by (rule rule_A_path)
qed

theorem rule_A_destination_witness:
  "endswith ''a/Tile_7/sub.json'' ''.json'' \<and> ''out'' \<noteq> [] \<and> \<not> endswith ''out'' ''/'' \<and>
   CHR ''/'' \<notin> set [] \<and>
   local_path ''out'' ''a/Tile_7/sub.json'' ''out'' [] = ''out/Data/Tile_7/sub.json''"
proof -
  have h3: "\<not> endswith ''out'' ''/''" by (simp add: endswith_def)
  have h4: "CHR ''/'' \<notin> set []" by simp
  have "local_path ''out'' ''a/Tile_7/sub.json'' ''out'' [] = ''out/Data/Tile_7/sub.json''"
    using rule_A_destination [OF endswith_json_example _ h3 h4, where base_path = "''out''"]
    by (simp add: tile_folder_example basename_example)
  then show ?thesis using h3 by (simp add: endswith_json_example)
qed

section \<open>Rule B: the local path of a tile payload\<close>




section \<open>The remote URL\<close>

text \<open>
  C2: the URL is the base, \<^verbatim>\<open>/Data/\<close>, the parent folder, a slash and the reference when
  the parent folder is not empty, and the base, a slash and the reference when it is
  empty or absent, whether the reference starts with \<^verbatim>\<open>Data/\<close> or not. The parent folder
  \<^verbatim>\<open>Tile_2\<close> and the reference \<^verbatim>\<open>x.b3dm\<close> give \<^verbatim>\<open>base/Data/Tile_2/x.b3dm\<close>.
\<close>

theorem full_url_resolution:
  "full_url base (Some parent_folder) url =
     (if parent_folder \<noteq> [] then base @ ''/Data/'' @ parent_folder @ ''/'' @ url
      else base @ ''/'' @ url) \<and>
   full_url base None url = base @ ''/'' @ url \<and>
   full_url base (Some ''Tile_2'') ''x.b3dm'' = base @ ''/Data/Tile_2/x.b3dm''"
  by (simp add: full_url_def truthy_def)

section \<open>The fetcher\<close>

text \<open>
  C5: a call of \<^verbatim>\<open>download_file\<close> with a local path that is already in
  \<^verbatim>\<open>downloaded_files\<close> returns \<^verbatim>\<open>True\<close> at once and leaves the state as it was: no
  request is logged, no file is written, the set is the same. The URL is not built,
  since the result does not depend on the reference or on the parent folder.
\<close>

theorem download_file_already_downloaded:
  assumes "save_path \<in> downloaded_files s"
  shows "download_file n e url save_path parent_folder s = Some (True, s)"
  using assms by (simp add: download_file_eq)

theorem download_file_already_downloaded_witness:
  "''out/a.b3dm'' \<in> downloaded_files (sample_state\<lparr>downloaded_files := {''out/a.b3dm''}\<rparr>) \<and>
   download_file 0 sample_env ''a.b3dm'' ''out/a.b3dm'' (Some [])
       (sample_state\<lparr>downloaded_files := {''out/a.b3dm''}\<rparr>)
     = Some (True, sample_state\<lparr>downloaded_files := {''out/a.b3dm''}\<rparr>) \<and>
   requests (sample_state\<lparr>downloaded_files := {''out/a.b3dm''}\<rparr>) = []"
proof -
  have h: "''out/a.b3dm'' \<in> downloaded_files (sample_state\<lparr>downloaded_files := {''out/a.b3dm''}\<rparr>)"
    by simp
  show ?thesis
    using download_file_already_downloaded [OF h, of 0 sample_env "''a.b3dm''" "Some []"]
    by (simp add: sample_state_def)
qed



section \<open>Malformed manifests\<close>

text \<open>
  C8: when the file at the path holds a text that \<^verbatim>\<open>json.load\<close> rejects,
  \<^verbatim>\<open>process_json_file\<close> returns normally at every depth bound, with the state it was
  given: nothing of that manifest is fetched, and its caller continues.
\<close>

theorem process_json_file_malformed_manifest:
  assumes "fs s json_path = Some doc" and "json_load e doc = None"
  shows "process_json_file n e json_path s = Some s"
  using assms by (rule process_json_file_malformed)

theorem process_json_file_malformed_manifest_witness:
  "fs (sample_state\<lparr>fs := [''out/Data/Tile_7/sub.json'' \<mapsto> ''{bad'']\<rparr>) ''out/Data/Tile_7/sub.json''
     = Some ''{bad'' \<and>
   json_load sample_env ''{bad'' = None \<and>
   process_json_file 0 sample_env ''out/Data/Tile_7/sub.json''
       (sample_state\<lparr>fs := [''out/Data/Tile_7/sub.json'' \<mapsto> ''{bad'']\<rparr>)
     = Some (sample_state\<lparr>fs := [''out/Data/Tile_7/sub.json'' \<mapsto> ''{bad'']\<rparr>)"
proof -
  let ?s = "sample_state\<lparr>fs := [''out/Data/Tile_7/sub.json'' \<mapsto> ''{bad'']\<rparr>"
  have 1: "fs ?s ''out/Data/Tile_7/sub.json'' = Some ''{bad''" by simp
  have 2: "json_load sample_env ''{bad'' = None"
    by (simp add: sample_env_def sample_manifest_text_def)
  show ?thesis
    using process_json_file_malformed_manifest [OF 1 2, of 0] 1 2 by simp
qed

text \<open>
  C9: when the reference ends with \<^verbatim>\<open>.json\<close>, the GET succeeds within the three
  attempts and the file is written, the result of \<^verbatim>\<open>download_file\<close> is \<^verbatim>\<open>True\<close>
  paired with whatever state the processing of the new manifest ends in: it returns
  exactly when that processing returns and it is never \<^verbatim>\<open>False\<close>. When the body is not
  JSON the processing ends at once, so \<^verbatim>\<open>download_file\<close> returns \<^verbatim>\<open>True\<close> with only
  this file saved. When every later GET fails, the walk of the new manifest returns for
  every depth bound above the size of its root node, and \<^verbatim>\<open>download_file\<close> returns
  \<^verbatim>\<open>True\<close>.
\<close>

theorem download_file_result_is_own_transfer:
  assumes "save_path \<notin> downloaded_files s"
    and "get_with_retries e (full_url (base_url e) pfo url) 0 s = (Some body, s1)"
    and "write_ok e (length (requests s1)) save_path"
    and "endswith url ''.json''"
  shows "download_file n e url save_path pfo s =
           map_option (\<lambda>s3. (True, s3))
             (process_json_file n e save_path (save_file save_path body s1)) \<and>
         download_file n e url save_path pfo s \<noteq> Some (False, s') \<and>
         (if json_load e body = None
          then download_file n e url save_path pfo s = Some (True, save_file save_path body s1)
          else True) \<and>
         (if offline e (length (requests s1))
          then \<exists>m. \<forall>k\<ge>m. \<exists>s3. download_file k e url save_path pfo s = Some (True, s3)
          else True)"
proof -
  have d: "download_file k e url save_path pfo s =
           map_option (\<lambda>s3. (True, s3))
             (process_json_file k e save_path (save_file save_path body s1))" for k
    using assms by (rule download_file_json)
  have m: "process_json_file n e save_path (save_file save_path body s1) =
             Some (save_file save_path body s1)" if "json_load e body = None"
    using that by (intro process_json_file_malformed [where doc = body]) (simp_all add: save_file_def)
  have o: "\<exists>m. \<forall>k\<ge>m. \<exists>s3. download_file k e url save_path pfo s = Some (True, s3)"
    if "offline e (length (requests s1))"
  proof -
    from that have "offline e (length (requests (save_file save_path body s1)))"
      by (simp add: save_file_def)
    from process_json_file_offline [OF this, of save_path] obtain m where
      "\<forall>k\<ge>m. \<exists>s3. process_json_file k e save_path (save_file save_path body s1) = Some s3"
      by blast
    then have "\<forall>k\<ge>m. \<exists>s3. download_file k e url save_path pfo s = Some (True, s3)"
      by (auto simp: d)
    then show ?thesis ..
  qed
  show ?thesis using d [of n] m o by auto
qed

theorem download_file_result_is_own_transfer_witness:
  "''out/Data/Tile_7/sub.json'' \<notin> downloaded_files sample_state \<and>
   endswith ''Data/Tile_7/sub.json'' ''.json'' \<and>
   download_file 0 sample_env ''Data/Tile_7/sub.json'' ''out/Data/Tile_7/sub.json'' (Some [])
       sample_state =
     Some (True, save_file ''out/Data/Tile_7/sub.json'' ''{bad''
                   (sample_state\<lparr>requests := [''http://h/t/Data/Tile_7/sub.json'']\<rparr>))"
proof -
  have 1: "''out/Data/Tile_7/sub.json'' \<notin> downloaded_files sample_state"
    by (simp add: sample_state_def)
  have u: "full_url (base_url sample_env) (Some []) ''Data/Tile_7/sub.json'' =
             ''http://h/t/Data/Tile_7/sub.json''"
    by (simp add: full_url_def truthy_def sample_env_def)
  have g: "http_get sample_env ''http://h/t/Data/Tile_7/sub.json'' (length (requests sample_state))
             = Some ''{bad''"
    by (simp add: sample_env_def)
  have 2: "get_with_retries sample_env (full_url (base_url sample_env) (Some []) ''Data/Tile_7/sub.json'')
             0 sample_state =
           (Some ''{bad'', sample_state\<lparr>requests := [''http://h/t/Data/Tile_7/sub.json'']\<rparr>)"
    using get_with_retries_first [OF g] by (simp add: u sample_state_def)
  have 3: "write_ok sample_env
             (length (requests (sample_state\<lparr>requests := [''http://h/t/Data/Tile_7/sub.json'']\<rparr>)))
             ''out/Data/Tile_7/sub.json''"
    by (simp add: sample_env_def)
  have 4: "endswith ''Data/Tile_7/sub.json'' ''.json''" by (simp add: endswith_def)
  have b: "json_load sample_env ''{bad'' = None"
    by (simp add: sample_env_def sample_manifest_text_def)
  note t = download_file_result_is_own_transfer [OF 1 2 3 4, of 0]
  have "download_file 0 sample_env ''Data/Tile_7/sub.json'' ''out/Data/Tile_7/sub.json'' (Some [])
          sample_state =
        Some (True, save_file ''out/Data/Tile_7/sub.json'' ''{bad''
                      (sample_state\<lparr>requests := [''http://h/t/Data/Tile_7/sub.json'']\<rparr>))"
    using conjunct1 [OF conjunct2 [OF conjunct2 [OF t]]] b by simp
  with 1 4 show ?thesis by simp
qed

section \<open>The root manifest\<close>

text \<open>
  C4, as the specification words it: the file written to \<^verbatim>\<open>tileset.json\<close> in the output
  directory has the bytes of the input manifest. The source does not copy the bytes: it
  writes what \<^verbatim>\<open>json.dump\<close> prints for the parsed document. The input \<^verbatim>\<open>{ }\<close> is the
  empty object, which is printed as \<^verbatim>\<open>{}\<close>.
\<close>

theorem root_copy_not_verbatim_counterexample:
  "fs sample_state ''blank.json'' = Some ''{ }'' \<and>
   map_option (\<lambda>s. fs s ''out/tileset.json'')
     (process_tileset 1 sample_env ''blank.json'' ''out'' sample_state) = Some (Some ''{}'') \<and>
   ''{}'' \<noteq> ''{ }''"
proof -
  let ?s = "sample_state\<lparr>output_dir := ''out''\<rparr>"
  have j: "os_path_join ''out'' ''tileset.json'' = ''out/tileset.json''"
    by (simp add: os_path_join_def startswith_def endswith_def)
  have 1: "fs ?s ''blank.json'' = Some ''{ }''" by (simp add: sample_state_def)
  have 2: "json_load sample_env ''{ }'' = Some (JObj [])" by (simp add: sample_env_def)
  have 3: "write_ok sample_env (length (requests ?s)) (os_path_join ''out'' ''tileset.json'')"
    by (simp add: sample_env_def)
  have d: "json_dump sample_env (JObj []) = ''{}''" by (simp add: sample_env_def)
  have "process_tileset 1 sample_env ''blank.json'' ''out'' sample_state =
          Some (?s\<lparr>fs := (fs ?s)(''out/tileset.json'' \<mapsto> ''{}'')\<rparr>)"
    using process_tileset_ok [OF copy_tileset_ok [OF 1 2 3], of 1]
    by (simp add: j d extract_leaf)
  then show ?thesis using 1 by simp
qed

text \<open>
  C4, amended: when the input manifest is read and parsed and the output file can be
  written, the file written to \<^verbatim>\<open>tileset.json\<close> in the output directory holds what
  \<^verbatim>\<open>json.dump\<close> prints for the document that \<^verbatim>\<open>json.load\<close> read; it has the bytes of
  the input exactly when printing the parsed document gives the input back. The walk of
  the root node starts from the state with that file.
\<close>

theorem root_copy_reserialised:
  assumes "fs s0 tileset_path = Some doc" and "json_load e doc = Some data"
    and "write_ok e (length (requests s0)) (os_path_join base_path ''tileset.json'')"
    and "s1 = s0\<lparr>output_dir := base_path,
                  fs := (fs s0)(os_path_join base_path ''tileset.json'' \<mapsto> json_dump e data)\<rparr>"
  shows "copy_tileset e tileset_path base_path (s0\<lparr>output_dir := base_path\<rparr>) = Inr (data, s1) \<and>
         fs s1 (os_path_join base_path ''tileset.json'') = Some (json_dump e data) \<and>
         (fs s1 (os_path_join base_path ''tileset.json'') = Some doc) = (json_dump e data = doc) \<and>
         process_tileset n e tileset_path base_path s0 =
           (case get_root data of
              Inl err \<Rightarrow> Some s1
            | Inr root \<Rightarrow> map_option snd (extract_urls_from_node n e root base_path [] s1))"
proof -
  have c: "copy_tileset e tileset_path base_path (s0\<lparr>output_dir := base_path\<rparr>) = Inr (data, s1)"
    using assms by (simp add: copy_tileset_def)
  show ?thesis
    using c process_tileset_ok [OF c] by (simp add: assms(4))
qed

theorem root_copy_reserialised_witness:
  "fs sample_state ''blank.json'' = Some ''{ }'' \<and>
   json_load sample_env ''{ }'' = Some (JObj []) \<and>
   write_ok sample_env (length (requests sample_state)) (os_path_join ''out'' ''tileset.json'') \<and>
   copy_tileset sample_env ''blank.json'' ''out'' (sample_state\<lparr>output_dir := ''out''\<rparr>) =
     Inr (JObj [], sample_state\<lparr>output_dir := ''out'',
            fs := (fs sample_state)(''out/tileset.json'' \<mapsto> ''{}'')\<rparr>)"
proof -
  have j: "os_path_join ''out'' ''tileset.json'' = ''out/tileset.json''"
    by (simp add: os_path_join_def startswith_def endswith_def)
  have 1: "fs sample_state ''blank.json'' = Some ''{ }''" by (simp add: sample_state_def)
  have 2: "json_load sample_env ''{ }'' = Some (JObj [])" by (simp add: sample_env_def)
  have 3: "write_ok sample_env (length (requests sample_state)) (os_path_join ''out'' ''tileset.json'')"
    by (simp add: sample_env_def)
  have d: "json_dump sample_env (JObj []) = ''{}''" by (simp add: sample_env_def)
  show ?thesis
    using conjunct1 [OF root_copy_reserialised [OF 1 2 3 refl, of 0]] 1 2 3
    by (simp add: j d)
qed

text \<open>
  C10: \<^verbatim>\<open>process_tileset\<close> walks the whole tree of the root manifest with the empty string
  as parent folder: when the copy of the manifest is written and a tree represents its
  root node, the run is \<open>walkNode\<close> of that tree with the output directory as base path
  and \<open>[]\<close> as parent folder, which hands every reference, of the root node and of its
  descendants, to the fetcher with the empty parent folder. The URL built from a
  reference \<open>r\<close> with the empty parent folder is the base URL, a slash and \<open>r\<close>, without
  \<^verbatim>\<open>Data\<close> and a directory name in between. On the request log, with a depth bound
  that is at least the size of the tree: when no reference of the tree ends with
  \<^verbatim>\<open>.json\<close> the run returns, in every world, and every request it has made goes to the
  base URL, a slash and a reference of the tree; when the server has stopped answering
  and nothing was downloaded before, the run returns and the requests it has made are
  three for each reference \<open>r\<close> of the tree, each to the base URL, a slash and \<open>r\<close>, and
  no other.
\<close>

theorem process_tileset_root_parent_folder:
  assumes "copy_tileset e tileset_path base_path (s0\<lparr>output_dir := base_path\<rparr>) = Inr (data, s1)"
    and "get_root data = Inr root"
    and "represents t root"
  shows "process_tileset n e tileset_path base_path s0 = walkNode n e t base_path [] s1 \<and>
         full_url (base_url e) (Some []) r = base_url e @ ''/'' @ r \<and>
         (if list_all (\<lambda>r. \<not> endswith r ''.json'') (tile_refs t) \<and> size t \<le> n
          then \<exists>s2 new. process_tileset n e tileset_path base_path s0 = Some s2 \<and>
                 requests s2 = new @ requests s1 \<and>
                 set new \<subseteq> (\<lambda>r. base_url e @ ''/'' @ r) ` set (tile_refs t)
          else True) \<and>
         (if offline e (length (requests s1)) \<and> downloaded_files s1 = {} \<and> size t \<le> n
          then process_tileset n e tileset_path base_path s0 =
                 Some (s1\<lparr>requests :=
                         concat (map (\<lambda>r. replicate 3 (base_url e @ ''/'' @ r)) (rev (tile_refs t)))
                         @ requests s1\<rparr>)
          else True)"
proof -
  have u: "full_url (base_url e) (Some []) r = base_url e @ ''/'' @ r" for r
    by (simp add: full_url_def truthy_def)
  then have uf: "full_url (base_url e) (Some []) = (\<lambda>r. base_url e @ ''/'' @ r)"
    by (rule ext)
  have "process_tileset n e tileset_path base_path s0 =
          map_option snd (extract_urls_from_node n e root base_path [] s1)"
    using process_tileset_ok [OF assms(1), of n] assms(2) by simp
  also have "\<dots> = walkNode n e t base_path [] s1"
    unfolding walk_refines(1) [OF assms(3)]
    by (cases "walkNode n e t base_path [] s1") simp_all
  finally have a: "process_tileset n e tileset_path base_path s0 = walkNode n e t base_path [] s1" .
  have b: "process_tileset n e tileset_path base_path s0 =
             Some (s1\<lparr>requests :=
                     concat (map (\<lambda>r. replicate 3 (base_url e @ ''/'' @ r)) (rev (tile_refs t)))
                     @ requests s1\<rparr>)"
    if "offline e (length (requests s1))" and "downloaded_files s1 = {}" and "size t \<le> n"
    using walk_offline_log(1) [OF that, of base_path "[]"] by (simp add: a u)
  have c: "\<exists>s2 new. process_tileset n e tileset_path base_path s0 = Some s2 \<and>
             requests s2 = new @ requests s1 \<and>
             set new \<subseteq> (\<lambda>r. base_url e @ ''/'' @ r) ` set (tile_refs t)"
    if "list_all (\<lambda>r. \<not> endswith r ''.json'') (tile_refs t)" and "size t \<le> n"
    using walk_payload_log(1) [OF that, of e base_path "[]" s1] unfolding a uf .
  have c2: "if list_all (\<lambda>r. \<not> endswith r ''.json'') (tile_refs t) \<and> size t \<le> n
            then \<exists>s2 new. process_tileset n e tileset_path base_path s0 = Some s2 \<and>
                   requests s2 = new @ requests s1 \<and>
                   set new \<subseteq> (\<lambda>r. base_url e @ ''/'' @ r) ` set (tile_refs t)
            else True"
  proof (cases "list_all (\<lambda>r. \<not> endswith r ''.json'') (tile_refs t) \<and> size t \<le> n")
    case True
    from c [OF conjunct1 [OF True] conjunct2 [OF True]] True show ?thesis
      by simp
  next
    case False
    then show ?thesis by (simp only: if_False)
  qed
  have b2: "if offline e (length (requests s1)) \<and> downloaded_files s1 = {} \<and> size t \<le> n
            then process_tileset n e tileset_path base_path s0 =
                   Some (s1\<lparr>requests :=
                           concat (map (\<lambda>r. replicate 3 (base_url e @ ''/'' @ r)) (rev (tile_refs t)))
                           @ requests s1\<rparr>)
            else True"
    using b by simp
  show ?thesis
    by (intro conjI) (rule a, rule u, rule c2, rule b2)
qed

theorem process_tileset_root_parent_folder_witness:
  "copy_tileset dead_env ''tileset.json'' ''out'' (dead_state\<lparr>output_dir := ''out''\<rparr>) =
     Inr (sample_family_manifest,
          dead_state\<lparr>output_dir := ''out'',
            fs := (fs dead_state)(''out/tileset.json'' \<mapsto> sample_family_text)\<rparr>) \<and>
   get_root sample_family_manifest = Inr sample_family_root \<and>
   represents sample_family sample_family_root \<and>
   tile_refs sample_family = [''a.b3dm'', ''b/c.b3dm''] \<and>
   map_option requests (process_tileset 10 dead_env ''tileset.json'' ''out'' dead_state) =
     Some [''http://h/t/b/c.b3dm'', ''http://h/t/b/c.b3dm'', ''http://h/t/b/c.b3dm'',
           ''http://h/t/a.b3dm'', ''http://h/t/a.b3dm'', ''http://h/t/a.b3dm''] \<and>
   copy_tileset sample_env ''tileset.json'' ''out'' (sample_state\<lparr>output_dir := ''out''\<rparr>) =
     Inr (sample_manifest,
          sample_state\<lparr>output_dir := ''out'',
            fs := (fs sample_state)(''out/tileset.json'' \<mapsto> sample_manifest_text)\<rparr>) \<and>
   get_root sample_manifest = Inr (JObj [(''content'', JObj [(''url'', JStr ''a.b3dm'')])]) \<and>
   represents (Tile (Some ''a.b3dm'') []) (JObj [(''content'', JObj [(''url'', JStr ''a.b3dm'')])]) \<and>
   map_option requests (process_tileset (Suc (Suc 0)) sample_env ''tileset.json'' ''out'' sample_state)
     = Some [''http://h/t/a.b3dm'']"
proof -
  let ?s1 = "dead_state\<lparr>output_dir := ''out'',
               fs := (fs dead_state)(''out/tileset.json'' \<mapsto> sample_family_text)\<rparr>"
  have j: "os_path_join ''out'' ''tileset.json'' = ''out/tileset.json''"
    by (simp add: os_path_join_def startswith_def endswith_def)
  have l: "json_load dead_env sample_family_text = Some sample_family_manifest"
    by (simp add: dead_env_def)
  have d: "json_dump dead_env sample_family_manifest = sample_family_text"
    by (simp add: dead_env_def)
  have 1: "fs (dead_state\<lparr>output_dir := ''out''\<rparr>) ''tileset.json'' = Some sample_family_text"
    by (simp add: dead_state_def)
  have 3: "write_ok dead_env (length (requests (dead_state\<lparr>output_dir := ''out''\<rparr>)))
             (os_path_join ''out'' ''tileset.json'')"
    by (simp add: dead_env_def)
  have c: "copy_tileset dead_env ''tileset.json'' ''out'' (dead_state\<lparr>output_dir := ''out''\<rparr>) =
             Inr (sample_family_manifest, ?s1)"
    using copy_tileset_ok [OF 1 l 3] by (simp add: j d)
  have gr: "get_root sample_family_manifest = Inr sample_family_root"
    by (simp add: sample_family_manifest_def)
  have rp: "represents sample_family sample_family_root"
    by (simp add: sample_family_def sample_family_root_def has_content_url_def content_url_def
        loop_items_def)
  have rf: "tile_refs sample_family = [''a.b3dm'', ''b/c.b3dm'']"
    by (simp add: sample_family_def)
  have o: "offline dead_env (length (requests ?s1))"
    by (simp add: offline_def dead_env_def)
  have e: "downloaded_files ?s1 = {}" by (simp add: dead_state_def)
  have sz: "size sample_family \<le> 10" by (simp add: sample_family_def)
  note t = process_tileset_root_parent_folder [OF c gr rp, of 10]
  have "process_tileset 10 dead_env ''tileset.json'' ''out'' dead_state =
          Some (?s1\<lparr>requests :=
                  concat (map (\<lambda>r. replicate 3 (base_url dead_env @ ''/'' @ r))
                            (rev (tile_refs sample_family))) @ requests ?s1\<rparr>)"
    using conjunct2 [OF conjunct2 [OF conjunct2 [OF t]]] o e sz by simp
  then have dead: "map_option requests (process_tileset 10 dead_env ''tileset.json'' ''out'' dead_state) =
     Some [''http://h/t/b/c.b3dm'', ''http://h/t/b/c.b3dm'', ''http://h/t/b/c.b3dm'',
           ''http://h/t/a.b3dm'', ''http://h/t/a.b3dm'', ''http://h/t/a.b3dm'']"
    by (simp add: rf numeral_3_eq_3 dead_env_def dead_state_def)
  let ?node = "JObj [(''content'', JObj [(''url'', JStr ''a.b3dm'')])]"
  let ?q1 = "sample_state\<lparr>output_dir := ''out'',
               fs := (fs sample_state)(''out/tileset.json'' \<mapsto> sample_manifest_text)\<rparr>"
  have l': "json_load sample_env sample_manifest_text = Some sample_manifest"
    by (simp add: sample_env_def sample_manifest_text_neq)
  have d': "json_dump sample_env sample_manifest = sample_manifest_text"
    by (simp add: sample_env_def) (simp add: sample_manifest_def)
  have f1: "fs (sample_state\<lparr>output_dir := ''out''\<rparr>) ''tileset.json'' = Some sample_manifest_text"
    by (simp add: sample_state_def)
  have f3: "write_ok sample_env (length (requests (sample_state\<lparr>output_dir := ''out''\<rparr>)))
             (os_path_join ''out'' ''tileset.json'')"
    by (simp add: sample_env_def)
  have c': "copy_tileset sample_env ''tileset.json'' ''out'' (sample_state\<lparr>output_dir := ''out''\<rparr>) =
             Inr (sample_manifest, ?q1)"
    using copy_tileset_ok [OF f1 l' f3] by (simp add: j d')
  have gr': "get_root sample_manifest = Inr ?node"
    by (simp add: sample_manifest_def)
  have rp': "represents (Tile (Some ''a.b3dm'') []) ?node"
    by (simp add: has_content_url_def content_url_def loop_items_def)
  have lp: "local_path ''out'' ''a.b3dm'' ''out'' [] = ''out/a.b3dm''"
    by (simp add: local_path_def endswith_def os_path_join_def startswith_def)
  have u: "full_url (base_url sample_env) (Some []) ''a.b3dm'' = ''http://h/t/a.b3dm''"
    by (simp add: full_url_def truthy_def sample_env_def)
  have g: "http_get sample_env ''http://h/t/a.b3dm'' (length (requests ?q1)) = Some ''tile''"
    by (simp add: sample_env_def)
  have gw: "get_with_retries sample_env ''http://h/t/a.b3dm'' 0 ?q1 =
              (Some ''tile'', ?q1\<lparr>requests := ''http://h/t/a.b3dm'' # requests ?q1\<rparr>)"
    using g by (rule get_with_retries_first)
  have nd: "''out/a.b3dm'' \<notin> downloaded_files ?q1"
    by (simp add: sample_state_def)
  have w: "write_ok sample_env k p" for k p
    by (simp add: sample_env_def)
  have nj: "\<not> endswith ''a.b3dm'' ''.json''"
    by (simp add: endswith_def)
  have dl: "download_file (Suc 0) sample_env ''a.b3dm'' ''out/a.b3dm'' (Some []) ?q1 =
              Some (True, save_file ''out/a.b3dm'' ''tile''
                            (?q1\<lparr>requests := ''http://h/t/a.b3dm'' # requests ?q1\<rparr>))"
    using nd nj by (simp add: download_file_eq u gw w)
  have wn: "walkNode (Suc (Suc 0)) sample_env (Tile (Some ''a.b3dm'') []) ''out'' [] ?q1 =
              Some (save_file ''out/a.b3dm'' ''tile''
                      (?q1\<lparr>requests := ''http://h/t/a.b3dm'' # requests ?q1\<rparr>))"
    using dl by (simp add: lp)
  note t' = process_tileset_root_parent_folder [OF c' gr' rp', of "Suc (Suc 0)"]
  have live: "map_option requests
          (process_tileset (Suc (Suc 0)) sample_env ''tileset.json'' ''out'' sample_state) =
        Some [''http://h/t/a.b3dm'']"
    using conjunct1 [OF t'] wn by (simp add: save_file_def sample_state_def)
  from c gr rp rf dead c' gr' rp' live show ?thesis by simp
qed

section \<open>The fetcher never writes the copy of the root manifest\<close>

lemma endswith_iff: "endswith s suf \<longleftrightarrow> (\<exists>p. s = p @ suf)"
proof
  assume "endswith s suf"
  then have "take (length suf) (rev s) = rev suf" by (simp add: endswith_def)
  then have "rev s = rev suf @ drop (length suf) (rev s)"
    by (metis append_take_drop_id)
  then have "s = rev (drop (length suf) (rev s)) @ suf"
    by (metis rev_append rev_rev_ident)
  then show "\<exists>p. s = p @ suf" ..
next
  assume "\<exists>p. s = p @ suf"
  then show "endswith s suf" by (auto simp: endswith_def)
qed

lemma os_path_join_cases:
  "os_path_join a b = b \<or> (\<exists>x. x \<noteq> [] \<and> last x = CHR ''/'' \<and> os_path_join a b = x @ b)"
proof (cases "startswith b ''/'' \<or> a = []")
  case True
  then show ?thesis by (simp add: os_path_join_def)
next
  case False
  show ?thesis
  proof (cases "endswith a ''/''")
    case True
    with False have "a \<noteq> [] \<and> last a = CHR ''/'' \<and> os_path_join a b = a @ b"
      by (simp add: os_path_join_def endswith_slash)
    then show ?thesis by blast
  next
    case ne: False
    with False have "a @ ''/'' \<noteq> [] \<and> last (a @ ''/'') = CHR ''/'' \<and>
        os_path_join a b = (a @ ''/'') @ b"
      by (simp add: os_path_join_def)
    then show ?thesis by blast
  qed
qed

lemma slash_before_not_json:
  assumes "\<not> endswith url ''.json''" and "x \<noteq> []" and "last x = CHR ''/''"
  shows "\<not> endswith (x @ url) ''.json''"
proof
  assume "endswith (x @ url) ''.json''"
  then obtain p where "x @ url = p @ ''.json''" by (auto simp: endswith_iff)
  then consider us where "x = p @ us" "us @ url = ''.json''"
    | us where "x @ us = p" "url = us @ ''.json''"
    by (auto simp: append_eq_append_conv2)
  then show False
  proof cases
    case 1
    show False
    proof (cases "us = []")
      case True
      with 1 assms(1) show False by (simp add: endswith_def)
    next
      case False
      with 1(1) assms(3) have "last us = CHR ''/''" by simp
      with False have "CHR ''/'' \<in> set us" by (metis last_in_set)
      then have "CHR ''/'' \<in> set (us @ url)" by simp
      with 1(2) show False by simp
    qed
  next
    case 2
    with assms(1) show False by (auto simp: endswith_iff)
  qed
qed

lemma rule_B_not_json:
  assumes "\<not> endswith url ''.json''"
  shows "\<not> endswith (os_path_join base_path url) ''.json''"
  using os_path_join_cases [of base_path url] assms slash_before_not_json [OF assms]
  by auto

lemma root_copy_json: "endswith (os_path_join out ''tileset.json'') ''.json''"
  by (simp add: os_path_join_def startswith_def endswith_def)

lemma os_path_join_relative:
  "\<exists>pre. \<forall>b. \<not> startswith b ''/'' \<longrightarrow> os_path_join out b = pre @ b"
proof (cases "out = []")
  case True
  then have "\<forall>b. \<not> startswith b ''/'' \<longrightarrow> os_path_join out b = [] @ b"
    by (simp add: os_path_join_def)
  then show ?thesis by blast
next
  case False
  show ?thesis
  proof (cases "endswith out ''/''")
    case True
    with False have "\<forall>b. \<not> startswith b ''/'' \<longrightarrow> os_path_join out b = out @ b"
      by (simp add: os_path_join_def)
    then show ?thesis by blast
  next
    case ne: False
    with False have "\<forall>b. \<not> startswith b ''/'' \<longrightarrow> os_path_join out b = (out @ ''/'') @ b"
      by (simp add: os_path_join_def)
    then show ?thesis by blast
  qed
qed

lemma rule_A_not_root_copy:
  assumes "CHR ''/'' \<notin> set parent_folder" and "endswith url ''.json''"
  shows "local_path out url base_path parent_folder \<noteq> os_path_join out ''tileset.json''"
proof -
  let ?tf = "tile_folder url parent_folder"
  let ?b = "os_path_basename url"
  obtain pre where pre: "\<And>b. \<not> startswith b ''/'' \<Longrightarrow> os_path_join out b = pre @ b"
    using os_path_join_relative [of out] by blast
  have r: "os_path_join out ''tileset.json'' = pre @ ''tileset.json''"
    by (rule pre) (simp add: startswith_def)
  have d: "os_path_join out ''Data'' = pre @ ''Data''"
    by (rule pre) (simp add: startswith_def)
  have tf: "CHR ''/'' \<notin> set ?tf" using assms(1) by (rule tile_folder_no_slash)
  have e1: "\<not> endswith (pre @ ''Data'') ''/''" by (simp add: endswith_def)
  have j2: "os_path_join (pre @ ''Data'') ?tf = pre @ ''Data/'' @ ?tf"
    using tf e1 by (simp add: os_path_join_def no_slash_not_startswith)
  have b: "\<not> startswith ?b ''/''"
    by (rule no_slash_not_startswith) (rule basename_no_slash)
  have "os_path_join (pre @ ''Data/'' @ ?tf) ?b = pre @ ''Data/'' @ ?tf @ ?b \<or>
        os_path_join (pre @ ''Data/'' @ ?tf) ?b = pre @ ''Data/'' @ ?tf @ ''/'' @ ?b"
    using b by (simp add: os_path_join_def)
  then have "\<exists>rest. local_path out url base_path parent_folder = pre @ ''Data/'' @ rest"
    using assms(2) by (auto simp: local_path_def os_path_join3_def d j2)
  then show ?thesis by (auto simp: r)
qed

lemma local_path_not_root_copy:
  assumes "CHR ''/'' \<notin> set parent_folder"
  shows "local_path out url base_path parent_folder \<noteq> os_path_join out ''tileset.json''"
proof (cases "endswith url ''.json''")
  case True
  with assms show ?thesis by (rule rule_A_not_root_copy)
next
  case False
  then have "\<not> endswith (local_path out url base_path parent_folder) ''.json''"
    by (simp add: local_path_def rule_B_not_json)
  then show ?thesis using root_copy_json [of out] by auto
qed


lemma spares_refl: "spares_root_copy s s"
  by (simp add: spares_root_copy_def)

lemma spares_trans:
  "spares_root_copy s s1 \<Longrightarrow> spares_root_copy s1 s2 \<Longrightarrow> spares_root_copy s s2"
  by (simp add: spares_root_copy_def root_copy_def)

lemma spares_frame:
  "output_dir s1 = output_dir s \<Longrightarrow> written s1 = written s \<Longrightarrow> spares_root_copy s s1"
  by (simp add: spares_root_copy_def)

lemma spares_save_file:
  "save_path \<noteq> root_copy s \<Longrightarrow> spares_root_copy s (save_file save_path body s)"
  by (auto simp: spares_root_copy_def save_file_def)

lemma process_json_file_spares:
  assumes "walker_spares n e" and "process_json_file n e json_path s = Some s'"
  shows "spares_root_copy s s'"
proof -
  have "CHR ''/'' \<notin> set (os_path_basename (os_path_dirname json_path))"
    by (rule basename_no_slash)
  with assms show ?thesis
    by (auto simp: process_json_file_eq walker_spares_def spares_refl
             split: option.splits sum.splits)
qed

lemma download_file_spares:
  assumes "walker_spares n e" and "save_path \<noteq> root_copy s"
    and "download_file n e url save_path pfo s = Some (ok, s')"
  shows "spares_root_copy s s'"
proof (cases "save_path \<in> downloaded_files s")
  case True
  with assms(3) show ?thesis by (simp add: download_file_eq spares_refl)
next
  case nd: False
  obtain r s1 where g: "get_with_retries e (full_url (base_url e) pfo url) 0 s = (r, s1)"
    by (cases "get_with_retries e (full_url (base_url e) pfo url) 0 s")
  from get_with_retries_frame [OF g]
  have f: "output_dir s1 = output_dir s" "written s1 = written s" by simp_all
  then have k1: "spares_root_copy s s1" by (rule spares_frame)
  from f assms(2) have n1: "save_path \<noteq> root_copy s1" by (simp add: root_copy_def)
  show ?thesis
  proof (cases r)
    case None
    with assms(3) nd g k1 show ?thesis by (simp add: download_file_eq)
  next
    case sb: (Some body)
    show ?thesis
    proof (cases "write_ok e (length (requests s1)) save_path")
      case False
      with assms(3) nd g sb k1 show ?thesis by (simp add: download_file_eq)
    next
      case True
      have k2: "spares_root_copy s (save_file save_path body s1)"
        using k1 spares_save_file [OF n1] by (rule spares_trans)
      show ?thesis
      proof (cases "endswith url ''.json''")
        case False
        with assms(3) nd g sb True k2 show ?thesis by (simp add: download_file_eq)
      next
        case ej: True
        with assms(3) nd g sb True
        have "process_json_file n e save_path (save_file save_path body s1) = Some s'"
          by (auto simp: download_file_eq)
        from process_json_file_spares [OF assms(1) this] k2 show ?thesis
          by (blast intro: spares_trans)
      qed
    qed
  qed
qed

lemma extract_each_spares:
  assumes "walker_spares n e" and "CHR ''/'' \<notin> set parent_folder"
  shows "extract_each n e items base_path parent_folder s = Some (r, s') \<Longrightarrow>
         spares_root_copy s s'"
proof (induction items arbitrary: s)
  case Nil
  then show ?case by (simp add: extract_each_Nil spares_refl)
next
  case (Cons child rest)
  from Cons.prems obtain r1 s1 where
    c: "extract_urls_from_node n e child base_path parent_folder s = Some (r1, s1)"
    by (cases "extract_urls_from_node n e child base_path parent_folder s")
       (auto simp: extract_each_Cons)
  with assms have k1: "spares_root_copy s s1" by (auto simp: walker_spares_def)
  show ?case
  proof (cases r1)
    case None
    with Cons.prems c have "extract_each n e rest base_path parent_folder s1 = Some (r, s')"
      by (simp add: extract_each_Cons)
    from k1 Cons.IH [OF this] show ?thesis by (rule spares_trans)
  next
    case (Some err)
    with Cons.prems c k1 show ?thesis by (simp add: extract_each_Cons)
  qed
qed

lemma extract_children_spares:
  assumes "walker_spares n e" and "CHR ''/'' \<notin> set parent_folder"
    and "extract_children n e node base_path parent_folder s = Some (r, s')"
  shows "spares_root_copy s s'"
  using assms(3) extract_each_spares [OF assms(1,2)]
  by (auto simp: extract_children_eq spares_refl split: sum.splits bool.splits)

lemma walker_spares_Suc:
  assumes "walker_spares n e"
  shows "walker_spares (Suc n) e"
  unfolding walker_spares_def
proof (intro allI impI)
  fix node base_path parent_folder s r s'
  assume pf: "CHR ''/'' \<notin> set parent_folder"
    and x: "extract_urls_from_node (Suc n) e node base_path parent_folder s = Some (r, s')"
  show "spares_root_copy s s'"
  proof (cases "has_content_url node")
    case (Inl err)
    with x show ?thesis by (simp add: extract_urls_from_node_eq spares_refl)
  next
    case (Inr b)
    show ?thesis
    proof (cases b)
      case False
      with Inr x have "extract_children n e node base_path parent_folder s = Some (r, s')"
        by (simp add: extract_urls_from_node_eq)
      then show ?thesis by (rule extract_children_spares [OF assms pf])
    next
      case True
      show ?thesis
      proof (cases "content_url node")
        case (Inl err)
        with Inr True x show ?thesis by (simp add: extract_urls_from_node_eq spares_refl)
      next
        case cu: (Inr u)
        show ?thesis
        proof (cases u)
          case (JStr url)
          from Inr True cu JStr x obtain ok s1 where
            d: "download_file n e url (local_path (output_dir s) url base_path parent_folder)
                  (Some parent_folder) s = Some (ok, s1)"
            and c: "extract_children n e node base_path parent_folder s1 = Some (r, s')"
            by (auto simp: extract_urls_from_node_eq split: option.splits)
          have "local_path (output_dir s) url base_path parent_folder \<noteq> root_copy s"
            unfolding root_copy_def using pf by (rule local_path_not_root_copy)
          from download_file_spares [OF assms this d]
            extract_children_spares [OF assms pf c]
          show ?thesis by (rule spares_trans)
        qed (use Inr True cu x in \<open>simp_all add: extract_urls_from_node_eq spares_refl\<close>)
      qed
    qed
  qed
qed

lemma walker_spares_all: "walker_spares n e"
proof (induction n)
  case 0
  show ?case by (simp add: walker_spares_def extract_urls_from_node_0)
next
  case (Suc n)
  then show ?case by (rule walker_spares_Suc)
qed

lemma process_tileset_spares:
  assumes "process_tileset n e tileset_path base_path s = Some s'"
    and "os_path_join base_path ''tileset.json'' \<notin> set (written s)"
  shows "os_path_join base_path ''tileset.json'' \<notin> set (written s')"
proof -
  let ?s0 = "s\<lparr>output_dir := base_path\<rparr>"
  have r0: "root_copy ?s0 = os_path_join base_path ''tileset.json''"
    by (simp add: root_copy_def)
  have w0: "root_copy ?s0 \<notin> set (written ?s0)" using assms(2) by (simp add: r0)
  have "spares_root_copy ?s0 s'"
  proof (cases "copy_tileset e tileset_path base_path ?s0")
    case (Inl err)
    with assms(1) show ?thesis by (simp add: process_tileset_def spares_refl)
  next
    case (Inr p)
    obtain data s1 where p: "p = (data, s1)" by (cases p)
    from Inr p have k1: "spares_root_copy ?s0 s1"
      by (auto simp: copy_tileset_def spares_frame split: option.splits if_splits)
    show ?thesis
    proof (cases "get_root data")
      case (Inl err)
      with assms(1) Inr p have "s' = s1" by (simp add: process_tileset_def)
      with k1 show ?thesis by simp
    next
      case root: (Inr root)
      with assms(1) Inr p obtain r where
        "extract_urls_from_node n e root base_path [] s1 = Some (r, s')"
        by (auto simp: process_tileset_def)
      moreover have "CHR ''/'' \<notin> set []" by simp
      ultimately have "spares_root_copy s1 s'"
        using walker_spares_all [of n e] unfolding walker_spares_def by blast
      with k1 show ?thesis by (blast intro: spares_trans)
    qed
  qed
  with w0 show ?thesis by (simp add: spares_root_copy_def r0)
qed

section \<open>Each path is written at most once\<close>

text \<open>
  C6: every operation keeps the order of the state: \<^verbatim>\<open>download_file\<close>,
  \<^verbatim>\<open>process_json_file\<close>, \<^verbatim>\<open>extract_urls_from_node\<close> and \<^verbatim>\<open>process_tileset\<close>, whenever
  they return, lead from a state in which no path was written twice by the fetcher and
  every written path is in \<^verbatim>\<open>downloaded_files\<close> to such a state, and never remove a path
  from the set; a fetch for a path in the set returns at once without writing; and the
  state of a new downloader is in order. In a run of \<^verbatim>\<open>process_tileset\<close> that starts
  with nothing written, no path is written twice by the fetcher, and the fetcher never
  writes to the path of the copy of the root manifest, which \<^verbatim>\<open>process_tileset\<close> itself
  writes once.
\<close>

theorem written_at_most_once:
  "(download_file n e url save_path pfo s = Some (ok, s') \<longrightarrow> keeps_written_once s s') \<and>
   (process_json_file n e json_path s = Some s' \<longrightarrow> keeps_written_once s s') \<and>
   (extract_urls_from_node n e node base_path parent_folder s = Some (r, s') \<longrightarrow>
      keeps_written_once s s') \<and>
   (process_tileset n e tileset_path base_path s = Some s' \<longrightarrow> keeps_written_once s s') \<and>
   (save_path \<in> downloaded_files s \<longrightarrow>
      download_file n e url save_path pfo s = Some (True, s)) \<and>
   written_once (snd (init_downloader base disk e0)) \<and>
   (process_tileset n e tileset_path base_path s = Some s' \<and> written s = [] \<longrightarrow>
      distinct (written s') \<and> os_path_join base_path ''tileset.json'' \<notin> set (written s'))"
proof (intro conjI impI)
  show "distinct (written s')"
    if "process_tileset n e tileset_path base_path s = Some s' \<and> written s = []"
    using process_tileset_keeps [of n e tileset_path base_path s s'] that
    by (simp add: keeps_written_once_def written_once_def)
  show "os_path_join base_path ''tileset.json'' \<notin> set (written s')"
    if "process_tileset n e tileset_path base_path s = Some s' \<and> written s = []"
    using process_tileset_spares [of n e tileset_path base_path s s'] that by simp
  show "keeps_written_once s s'" if "download_file n e url save_path pfo s = Some (ok, s')"
    using walker_keeps_all that by (rule download_file_keeps)
  show "keeps_written_once s s'" if "process_json_file n e json_path s = Some s'"
    using walker_keeps_all that by (rule process_json_file_keeps)
  show "keeps_written_once s s'"
    if "extract_urls_from_node n e node base_path parent_folder s = Some (r, s')"
    using walker_keeps_all [of n e] that by (auto simp: walker_keeps_def)
  show "keeps_written_once s s'" if "process_tileset n e tileset_path base_path s = Some s'"
    using that by (rule process_tileset_keeps)
  show "download_file n e url save_path pfo s = Some (True, s)" if "save_path \<in> downloaded_files s"
    using that by (simp add: download_file_eq)
  show "written_once (snd (init_downloader base disk e0))"
    by (simp add: init_downloader_def written_once_def)
qed

theorem written_at_most_once_witness:
  "written_once sample_state \<and>
   map_option written
     (process_tileset (Suc (Suc 0)) sample_env ''tileset.json'' ''out'' sample_state)
     = Some [''out/a.b3dm''] \<and>
   map_option downloaded_files
     (process_tileset (Suc (Suc 0)) sample_env ''tileset.json'' ''out'' sample_state)
     = Some {''out/a.b3dm''} \<and>
   map_option written_once
     (process_tileset (Suc (Suc 0)) sample_env ''tileset.json'' ''out'' sample_state)
     = Some True"
proof -
  let ?s' = "save_file ''out/a.b3dm'' ''tile''
             (sample_state\<lparr>output_dir := ''out'',
                fs := (fs sample_state)(''out/tileset.json'' \<mapsto> sample_manifest_text),
                requests := [''http://h/t/a.b3dm'']\<rparr>)"
  have w0: "written_once sample_state"
    by (simp add: written_once_def sample_state_def)
  have "keeps_written_once sample_state ?s'"
    using written_at_most_once [where n = "Suc (Suc 0)" and e = sample_env
        and tileset_path = "''tileset.json''" and base_path = "''out''" and s = sample_state
        and s' = ?s'] sample_run
    by blast
  with w0 have "written_once ?s'" by (simp add: keeps_written_once_def)
  with w0 show ?thesis
    by (simp add: sample_run) (simp add: save_file_def sample_state_def)
qed

end
